theory Spec2Isabelle
  imports Main "HOL-Library.Word"
begin

section \<open>Strings of the source language\<close>

text \<open>
  A string of the source is a sequence of 16-bit code units. A literal of the source is
  written \<open>js ''...''\<close>, with \<open>\<newline>\<close> for the line feed; the carriage return is
  \<open>CR\<close>, and code units outside ASCII are written as numerals (the line separator
  U+2028 is \<open>0x2028\<close>).
\<close>

type_synonym jschar = "16 word"
type_synonym jsstring = "jschar list"

definition js :: "string \<Rightarrow> jsstring" where
  "js s = map of_char s"

definition NL :: jschar where
  "NL = 0x0A"

definition CR :: jschar where
  "CR = 0x0D"

text \<open>
  The class \<open>\s\<close> of a regular expression, which is also the set of code units that
  \<open>trim()\<close> removes: white space and line terminators.
\<close>

definition is_space :: "jschar \<Rightarrow> bool" where
  "is_space c \<longleftrightarrow>
     c = 0x09 \<or> c = 0x0A \<or> c = 0x0B \<or> c = 0x0C \<or> c = 0x0D \<or> c = 0x20 \<or> c = 0xA0 \<or>
     c = 0x1680 \<or> (0x2000 \<le> c \<and> c \<le> 0x200A) \<or> c = 0x2028 \<or> c = 0x2029 \<or>
     c = 0x202F \<or> c = 0x205F \<or> c = 0x3000 \<or> c = 0xFEFF"

text \<open>The line terminators: the code units that \<open>.\<close> does not match (no \<open>s\<close> flag).\<close>

definition is_line_terminator :: "jschar \<Rightarrow> bool" where
  "is_line_terminator c \<longleftrightarrow> c = 0x0A \<or> c = 0x0D \<or> c = 0x2028 \<or> c = 0x2029"

definition is_dot :: "jschar \<Rightarrow> bool" where
  "is_dot c \<longleftrightarrow> \<not> is_line_terminator c"

text \<open>\<open>[-*+]\<close>\<close>

definition is_bullet :: "jschar \<Rightarrow> bool" where
  "is_bullet c \<longleftrightarrow> c = 0x2D \<or> c = 0x2A \<or> c = 0x2B"

text \<open>\<open>\d\<close>\<close>

definition is_digit :: "jschar \<Rightarrow> bool" where
  "is_digit c \<longleftrightarrow> 0x30 \<le> c \<and> c \<le> 0x39"

text \<open>\<open>[a-zA-Z]\<close>\<close>

definition is_alpha :: "jschar \<Rightarrow> bool" where
  "is_alpha c \<longleftrightarrow> (0x61 \<le> c \<and> c \<le> 0x7A) \<or> (0x41 \<le> c \<and> c \<le> 0x5A)"

text \<open>\<open>[ivxlcdmIVXLCDM]\<close>\<close>

definition is_roman :: "jschar \<Rightarrow> bool" where
  "is_roman c \<longleftrightarrow>
     c = 0x69 \<or> c = 0x76 \<or> c = 0x78 \<or> c = 0x6C \<or> c = 0x63 \<or> c = 0x64 \<or> c = 0x6D \<or>
     c = 0x49 \<or> c = 0x56 \<or> c = 0x58 \<or> c = 0x4C \<or> c = 0x43 \<or> c = 0x44 \<or> c = 0x4D"

text \<open>\<open>\.\<close>\<close>

definition is_period :: "jschar \<Rightarrow> bool" where
  "is_period c \<longleftrightarrow> c = 0x2E"

text \<open>\<open>[.)]\<close>\<close>

definition is_period_or_paren :: "jschar \<Rightarrow> bool" where
  "is_period_or_paren c \<longleftrightarrow> c = 0x2E \<or> c = 0x29"

text \<open>\<open>String.prototype.trim\<close> and the test \<open>line.trim() === ''\<close>.\<close>

definition trim :: "jsstring \<Rightarrow> jsstring" where
  "trim s = rev (dropWhile is_space (rev (dropWhile is_space s)))"

text \<open>\<open>text.split('\n')\<close>: the separator is a single code unit; the result is never empty.\<close>

fun split_nl :: "jsstring \<Rightarrow> jsstring list" where
  "split_nl [] = [[]]"
| "split_nl (c # cs) =
     (if c = NL then [] # split_nl cs
      else (case split_nl cs of [] \<Rightarrow> [[c]] | l # ls \<Rightarrow> (c # l) # ls))"

text \<open>\<open>lines.join('\n')\<close>\<close>

fun join_nl :: "jsstring list \<Rightarrow> jsstring" where
  "join_nl [] = []"
| "join_nl [l] = l"
| "join_nl (l # ls) = l @ NL # join_nl ls"

text \<open>
  The decimal rendering of a counter in a template literal. The counters of the source
  are non-negative integers far below the range where the source language switches to
  exponent notation.
\<close>

fun decimal :: "nat \<Rightarrow> jsstring" where
  "decimal n = (if n < 10 then [0x30 + of_nat n] else decimal (n div 10) @ [0x30 + of_nat (n mod 10)])"

declare decimal.simps [simp del]

text \<open>\<open>String.fromCharCode\<close> keeps the low 16 bits of its argument.\<close>

definition fromCharCode :: "nat \<Rightarrow> jschar" where
  "fromCharCode n = of_nat n"

section \<open>Regular expressions\<close>

text \<open>
  The fragment of the regular expressions that the source uses: character classes,
  greedy \<open>*\<close> and \<open>+\<close> on a class, the assertions \<open>^\<close> and \<open>$\<close> (no \<open>m\<close> flag),
  sequence, alternation and numbered capture groups. The matcher is the backtracking
  matcher of the language definition: \<open>run r st\<close> lists the states in which a match of
  \<open>r\<close> from \<open>st\<close> can end, in the order in which backtracking tries them. A state is the
  input before the position, the input after it, and the captures so far.
\<close>

datatype regex =
    Cls "jschar \<Rightarrow> bool"
  | Star "jschar \<Rightarrow> bool"
  | Plus "jschar \<Rightarrow> bool"
  | Bol
  | Eol
  | Seq regex regex
  | Alt regex regex
  | Group nat regex

type_synonym captures = "nat \<Rightarrow> jsstring option"
type_synonym mstate = "jsstring \<times> jsstring \<times> captures"

fun star :: "(jschar \<Rightarrow> bool) \<Rightarrow> mstate \<Rightarrow> mstate list" where
  "star p (b, [], g) = [(b, [], g)]"
| "star p (b, c # cs, g) = (if p c then star p (b @ [c], cs, g) else []) @ [(b, c # cs, g)]"

fun cls :: "(jschar \<Rightarrow> bool) \<Rightarrow> mstate \<Rightarrow> mstate list" where
  "cls p (b, [], g) = []"
| "cls p (b, c # cs, g) = (if p c then [(b @ [c], cs, g)] else [])"

fun capture :: "nat \<Rightarrow> mstate \<Rightarrow> mstate \<Rightarrow> mstate" where
  "capture n (b, a, g) (b', a', g') = (b', a', g'(n \<mapsto> drop (length b) b'))"

fun run :: "regex \<Rightarrow> mstate \<Rightarrow> mstate list" where
  "run (Cls p) st = cls p st"
| "run (Star p) st = star p st"
| "run (Plus p) st = concat (map (star p) (cls p st))"
| "run Bol (b, a, g) = (if b = [] then [(b, a, g)] else [])"
| "run Eol (b, a, g) = (if a = [] then [(b, a, g)] else [])"
| "run (Seq r1 r2) st = concat (map (run r2) (run r1 st))"
| "run (Alt r1 r2) st = run r1 st @ run r2 st"
| "run (Group n r) st = map (capture n st) (run r st)"

text \<open>
  The result of a successful match: the matched text (index 0 of the match array) and
  the captures (the other indices; a group that took no part is \<open>None\<close>).
\<close>

record match_result =
  matched :: jsstring
  groups :: captures

text \<open>
  \<open>exec_at r s i\<close> is the attempt at start index \<open>i\<close>: the first state of \<open>run\<close>, if any.
  \<open>exec_from\<close> tries the start indices upwards, as a match without the sticky flag does.
\<close>

definition exec_at :: "regex \<Rightarrow> jsstring \<Rightarrow> nat \<Rightarrow> match_result option" where
  "exec_at r s i =
     (case run r (take i s, drop i s, Map.empty) of
        [] \<Rightarrow> None
      | (b, a, g) # _ \<Rightarrow> Some \<lparr>matched = drop i b, groups = g\<rparr>)"

fun exec_from :: "regex \<Rightarrow> jsstring \<Rightarrow> nat \<Rightarrow> nat \<Rightarrow> match_result option" where
  "exec_from r s i 0 = exec_at r s i"
| "exec_from r s i (Suc n) =
     (case exec_at r s i of Some m \<Rightarrow> Some m | None \<Rightarrow> exec_from r s (Suc i) n)"

text \<open>\<open>s.match(r)\<close> for a regular expression without the global flag.\<close>

definition match :: "jsstring \<Rightarrow> regex \<Rightarrow> match_result option" where
  "match s r = exec_from r s 0 (length s)"

text \<open>A value in a template literal: an absent one is rendered as \<open>undefined\<close>.\<close>

fun tmpl :: "jsstring option \<Rightarrow> jsstring" where
  "tmpl None = js ''undefined''"
| "tmpl (Some s) = s"

section \<open>The list formatter\<close>

definition ROMAN_NUMERALS_UPPER :: "jsstring list" where
  "ROMAN_NUMERALS_UPPER =
     map js [''I'', ''II'', ''III'', ''IV'', ''V'', ''VI'', ''VII'', ''VIII'', ''IX'', ''X'',
       ''XI'', ''XII'', ''XIII'', ''XIV'', ''XV'', ''XVI'', ''XVII'', ''XVIII'', ''XIX'', ''XX'']"

text \<open>
  \<open>toLowerCase\<close> on the code units the table holds: the letters A to Z move to a to z,
  every other ASCII code unit stays.
\<close>

definition toLowerCase :: "jsstring \<Rightarrow> jsstring" where
  "toLowerCase s = map (\<lambda>c. if 0x41 \<le> c \<and> c \<le> 0x5A then c + 0x20 else c) s"

definition ROMAN_NUMERALS_LOWER :: "jsstring list" where
  "ROMAN_NUMERALS_LOWER = map toLowerCase ROMAN_NUMERALS_UPPER"

text \<open>
  \<open>/^(\s*[-*+]\s+|^\s*\d+\.\s+|^\s*[a-zA-Z][.)]\s+|^\s*[ivxlcdmIVXLCDM]+\.\s+)(.*)$/\<close>
\<close>

definition PREFIX_BULLET :: regex where
  "PREFIX_BULLET = Seq (Star is_space) (Seq (Cls is_bullet) (Plus is_space))"

definition PREFIX_NUMBER :: regex where
  "PREFIX_NUMBER =
     Seq Bol (Seq (Star is_space) (Seq (Plus is_digit) (Seq (Cls is_period) (Plus is_space))))"

definition PREFIX_LETTER :: regex where
  "PREFIX_LETTER =
     Seq Bol (Seq (Star is_space) (Seq (Cls is_alpha) (Seq (Cls is_period_or_paren) (Plus is_space))))"

definition PREFIX_ROMAN :: regex where
  "PREFIX_ROMAN =
     Seq Bol (Seq (Star is_space) (Seq (Plus is_roman) (Seq (Cls is_period) (Plus is_space))))"

definition PREFIX_REGEX :: regex where
  "PREFIX_REGEX =
     Seq Bol
       (Seq (Group 1 (Alt PREFIX_BULLET (Alt PREFIX_NUMBER (Alt PREFIX_LETTER PREFIX_ROMAN))))
         (Seq (Group 2 (Star is_dot)) Eol))"

text \<open>\<open>/^(\s*)/\<close>\<close>

definition LEADING_WS_REGEX :: regex where
  "LEADING_WS_REGEX = Seq Bol (Group 1 (Star is_space))"

definition processLine :: "jsstring \<Rightarrow> jsstring \<Rightarrow> jsstring" where
  "processLine line newPrefix =
     (if trim line = [] then line
      else
        let leadingWhitespaceMatch = match line LEADING_WS_REGEX;
            indentation = (case leadingWhitespaceMatch of Some m \<Rightarrow> matched m | None \<Rightarrow> []);
            content = drop (length indentation) line;
            prefixMatch = match content PREFIX_REGEX
        in (case prefixMatch of
              Some m \<Rightarrow> indentation @ newPrefix @ tmpl (groups m 2)
            | None \<Rightarrow> indentation @ newPrefix @ content))"

text \<open>
  Each style function splits the text, maps the lines in order and joins the result.
  The counter that the callback of \<open>map\<close> updates is passed along the recursion.
\<close>

fun bullet_lines :: "jsstring list \<Rightarrow> jsstring list" where
  "bullet_lines [] = []"
| "bullet_lines (line # lines) =
     (if trim line = [] then line else processLine line (js ''- '')) # bullet_lines lines"

definition formatBulletList :: "jsstring \<Rightarrow> jsstring" where
  "formatBulletList text = join_nl (bullet_lines (split_nl text))"

fun numbered_lines :: "nat \<Rightarrow> jsstring list \<Rightarrow> jsstring list" where
  "numbered_lines counter [] = []"
| "numbered_lines counter (line # lines) =
     (if trim line = [] then line # numbered_lines counter lines
      else
        let prefix = decimal counter @ js ''. ''
        in processLine line prefix # numbered_lines (counter + 1) lines)"

definition formatNumberedList :: "jsstring \<Rightarrow> jsstring" where
  "formatNumberedList text = join_nl (numbered_lines 1 (split_nl text))"

fun alphabetical_lines :: "bool \<Rightarrow> nat \<Rightarrow> jsstring list \<Rightarrow> jsstring list" where
  "alphabetical_lines lower charCode [] = []"
| "alphabetical_lines lower charCode (line # lines) =
     (if trim line = [] then line # alphabetical_lines lower charCode lines
      else
        let prefix = fromCharCode charCode # js ''. '';
            charCode1 = charCode + 1;
            charCode2 = (if lower \<and> charCode1 > 122 then 97 else charCode1);
            charCode3 = (if \<not> lower \<and> charCode2 > 90 then 65 else charCode2)
        in processLine line prefix # alphabetical_lines lower charCode3 lines)"

definition formatAlphabeticalList :: "jsstring \<Rightarrow> bool \<Rightarrow> jsstring" where
  "formatAlphabeticalList text lower =
     join_nl (alphabetical_lines lower (if lower then 97 else 65) (split_nl text))"

text \<open>An array read: out of range it gives no value.\<close>

definition at_index :: "'a list \<Rightarrow> nat \<Rightarrow> 'a option" where
  "at_index xs i = (if i < length xs then Some (xs ! i) else None)"

fun roman_lines :: "jsstring list \<Rightarrow> nat \<Rightarrow> jsstring list \<Rightarrow> jsstring list" where
  "roman_lines numerals counter [] = []"
| "roman_lines numerals counter (line # lines) =
     (if trim line = [] then line # roman_lines numerals counter lines
      else
        let numeral = at_index numerals (counter mod length numerals);
            prefix = tmpl numeral @ js ''. ''
        in processLine line prefix # roman_lines numerals (counter + 1) lines)"

definition formatRomanList :: "jsstring \<Rightarrow> bool \<Rightarrow> jsstring" where
  "formatRomanList text lower =
     join_nl (roman_lines (if lower then ROMAN_NUMERALS_LOWER else ROMAN_NUMERALS_UPPER) 0
       (split_nl text))"

fun checkbox_lines :: "jsstring list \<Rightarrow> jsstring list" where
  "checkbox_lines [] = []"
| "checkbox_lines (line # lines) =
     (if trim line = [] then line else processLine line (js ''- [ ] '')) # checkbox_lines lines"

definition formatCheckboxList :: "jsstring \<Rightarrow> jsstring" where
  "formatCheckboxList text = join_nl (checkbox_lines (split_nl text))"

text \<open>
  The caller's dispatch on the style identifier (\<open>'bullet'\<close>, \<open>'numbered'\<close>,
  \<open>'alphabetical'\<close>, \<open>'alphabeticalUpper'\<close>, \<open>'roman'\<close>, \<open>'romanUpper'\<close>,
  \<open>'checkbox'\<close>); it reaches every style function with every value of \<open>lower\<close>.
\<close>

datatype style =
  Bullet | Numbered | Alphabetical | AlphabeticalUpper | Roman | RomanUpper | Checkbox

fun formattedText :: "style \<Rightarrow> jsstring \<Rightarrow> jsstring" where
  "formattedText Bullet selection = formatBulletList selection"
| "formattedText Numbered selection = formatNumberedList selection"
| "formattedText Alphabetical selection = formatAlphabeticalList selection True"
| "formattedText AlphabeticalUpper selection = formatAlphabeticalList selection False"
| "formattedText Roman selection = formatRomanList selection True"
| "formattedText RomanUpper selection = formatRomanList selection False"
| "formattedText Checkbox selection = formatCheckboxList selection"

section \<open>The vocabulary of the specification\<close>

text \<open>
  The definitions of this section follow the words of the specification, not the code:
  the position of a line among the non-blank lines, and the marker that the table of
  the marker generators gives to a position.
\<close>

text \<open>The number of non-blank lines before index \<open>i\<close>: the 0-based position of line \<open>i\<close>.\<close>

definition position :: "jsstring list \<Rightarrow> nat \<Rightarrow> nat" where
  "position lines i = length (filter (\<lambda>l. trim l \<noteq> []) (take i lines))"

definition spec_roman_upper :: "jsstring list" where
  "spec_roman_upper =
     map js [''I'', ''II'', ''III'', ''IV'', ''V'', ''VI'', ''VII'', ''VIII'', ''IX'', ''X'',
       ''XI'', ''XII'', ''XIII'', ''XIV'', ''XV'', ''XVI'', ''XVII'', ''XVIII'', ''XIX'', ''XX'']"

definition spec_roman_lower :: "jsstring list" where
  "spec_roman_lower =
     map js [''i'', ''ii'', ''iii'', ''iv'', ''v'', ''vi'', ''vii'', ''viii'', ''ix'', ''x'',
       ''xi'', ''xii'', ''xiii'', ''xiv'', ''xv'', ''xvi'', ''xvii'', ''xviii'', ''xix'', ''xx'']"

fun spec_marker :: "style \<Rightarrow> nat \<Rightarrow> jsstring" where
  "spec_marker Bullet n = js ''- ''"
| "spec_marker Numbered n = decimal (n + 1) @ js ''. ''"
| "spec_marker Alphabetical n = js ''abcdefghijklmnopqrstuvwxyz'' ! (n mod 26) # js ''. ''"
| "spec_marker AlphabeticalUpper n = js ''ABCDEFGHIJKLMNOPQRSTUVWXYZ'' ! (n mod 26) # js ''. ''"
| "spec_marker Roman n = spec_roman_lower ! (n mod 20) @ js ''. ''"
| "spec_marker RomanUpper n = spec_roman_upper ! (n mod 20) @ js ''. ''"
| "spec_marker Checkbox n = js ''- [ ] ''"

text \<open>
  The body of a recognised marker, without the white space after it: one of \<open>-\<close>,
  \<open>*\<close>, \<open>+\<close>; or digits and a period; or one letter and a period or a closing
  parenthesis; or roman letters and a period.
\<close>

definition marker_body :: "jsstring \<Rightarrow> bool" where
  "marker_body m \<longleftrightarrow>
     (case m of
        [] \<Rightarrow> False
      | x # t \<Rightarrow>
          (is_bullet x \<and> t = []) \<or>
          (t \<noteq> [] \<and> list_all is_digit (x # butlast t) \<and> is_period (last t)) \<or>
          (is_alpha x \<and> length t = 1 \<and> is_period_or_paren (last t)) \<or>
          (t \<noteq> [] \<and> list_all is_roman (x # butlast t) \<and> is_period (last t)))"

text \<open>
  The common shape of the marker generators: blank lines are skipped untouched, a
  non-blank line gets the marker of its position, and only it advances the position.
\<close>

fun mark_lines :: "(nat \<Rightarrow> jsstring) \<Rightarrow> nat \<Rightarrow> jsstring list \<Rightarrow> jsstring list" where
  "mark_lines mk n [] = []"
| "mark_lines mk n (line # lines) =
     (if trim line = [] then line # mark_lines mk n lines
      else processLine line (mk n) # mark_lines mk (Suc n) lines)"

section \<open>A direct description of the prefix detector\<close>

text \<open>
  The functions below compute, without backtracking, what a match of \<open>PREFIX_REGEX\<close>
  captures in its second group. They are used in the proofs only; that they agree with
  the matcher is proved below (\<open>match_PREFIX_REGEX\<close>).
\<close>

fun first_of :: "'a list \<Rightarrow> 'a option" where
  "first_of [] = None"
| "first_of (x # _) = Some x"

text \<open>After the body of a marker: one or more \<open>\s\<close>, then \<open>(.*)$\<close>.\<close>

definition after_space :: "jsstring \<Rightarrow> jsstring option" where
  "after_space t =
     (case t of
        [] \<Rightarrow> None
      | s # u \<Rightarrow>
          if is_space s \<and> list_all is_dot (dropWhile is_space u)
          then Some (dropWhile is_space u) else None)"

text \<open>The body of a marker, in the order of the alternatives; the result is what follows it.\<close>

definition marker_end :: "jsstring \<Rightarrow> jsstring option" where
  "marker_end c =
     (case dropWhile is_space c of
        [] \<Rightarrow> None
      | x # t \<Rightarrow>
          if is_bullet x then Some t
          else if is_digit x then
            (case dropWhile is_digit t of
               [] \<Rightarrow> None
             | y # u \<Rightarrow> if is_period y then Some u else None)
          else if is_alpha x \<and> (case t of [] \<Rightarrow> False | y # u \<Rightarrow> is_period_or_paren y)
            then Some (tl t)
          else if is_roman x then
            (case dropWhile is_roman t of
               [] \<Rightarrow> None
             | y # u \<Rightarrow> if is_period y then Some u else None)
          else None)"

definition detect :: "jsstring \<Rightarrow> jsstring option" where
  "detect c = (case marker_end c of None \<Rightarrow> None | Some t \<Rightarrow> after_space t)"

text \<open>The second capture of the first state of a list of states.\<close>

definition res2 :: "mstate list \<Rightarrow> jsstring option option" where
  "res2 L = map_option (\<lambda>(b, a, g). g 2) (first_of L)"

text \<open>The end of \<open>PREFIX_REGEX\<close> after its first group: the group is closed, then \<open>(.*)$\<close>.\<close>

definition finish :: "mstate \<Rightarrow> mstate \<Rightarrow> mstate list" where
  "finish st0 st = run (Seq (Group 2 (Star is_dot)) Eol) (capture 1 st0 st)"

text \<open>What \<open>processLine\<close> puts after the new marker.\<close>

definition residual :: "jsstring \<Rightarrow> jsstring" where
  "residual c = (case detect c of Some r \<Rightarrow> r | None \<Rightarrow> c)"

section \<open>The matcher on the two regular expressions of the source\<close>

lemma space_not_bullet: "is_space c \<Longrightarrow> \<not> is_bullet c"
  by (auto simp: is_space_def is_bullet_def)

lemma space_not_digit: "is_space c \<Longrightarrow> \<not> is_digit c"
  by (auto simp: is_space_def is_digit_def word_le_nat_alt)

lemma space_not_alpha: "is_space c \<Longrightarrow> \<not> is_alpha c"
  by (auto simp: is_space_def is_alpha_def word_le_nat_alt)

lemma space_not_roman: "is_space c \<Longrightarrow> \<not> is_roman c"
  by (auto simp: is_space_def is_roman_def)

lemma digit_not_period: "is_digit c \<Longrightarrow> \<not> is_period c"
  by (auto simp: is_digit_def is_period_def)

lemma roman_not_period: "is_roman c \<Longrightarrow> \<not> is_period c"
  by (auto simp: is_roman_def is_period_def)

lemma roman_alpha: "is_roman c \<Longrightarrow> is_alpha c"
  by (auto simp: is_roman_def is_alpha_def)

lemma period_paren: "is_period c \<Longrightarrow> is_period_or_paren c"
  by (auto simp: is_period_def is_period_or_paren_def)

lemma paren_not_roman: "is_period_or_paren c \<Longrightarrow> \<not> is_roman c"
  by (auto simp: is_roman_def is_period_or_paren_def)

lemma line_terminator_space: "is_line_terminator c \<Longrightarrow> is_space c"
  by (auto simp: is_space_def is_line_terminator_def)

lemma first_of_append:
  "first_of (xs @ ys) = (case first_of xs of Some x \<Rightarrow> Some x | None \<Rightarrow> first_of ys)"
  by (cases xs) auto

lemma concat_map_star:
  assumes "\<And>b c cs g. p c \<Longrightarrow> f (b, c # cs, g) = []"
  shows "concat (map f (star p (b, a, g))) = f (b @ takeWhile p a, dropWhile p a, g)"
  using assms by (induction a arbitrary: b) simp_all

lemma first_of_star:
  "first_of (star p (b, a, g)) = Some (b @ takeWhile p a, dropWhile p a, g)"
  by (induction a arbitrary: b) (auto simp: first_of_append)

lemma run_Seq_Star:
  assumes "\<And>b c cs g. p c \<Longrightarrow> run R (b, c # cs, g) = []"
  shows "run (Seq (Star p) R) (b, a, g) = run R (b @ takeWhile p a, dropWhile p a, g)"
  using concat_map_star [of p "run R", OF assms] by simp

lemma run_Seq_Cls:
  "run (Seq (Cls q) R) (b, a, g) =
     (case a of [] \<Rightarrow> [] | c # cs \<Rightarrow> if q c then run R (b @ [c], cs, g) else [])"
  by (cases a) simp_all

lemma run_Seq_Plus:
  assumes "\<And>b c cs g. p c \<Longrightarrow> run R (b, c # cs, g) = []"
  shows "run (Seq (Plus p) R) (b, a, g) =
     (case a of [] \<Rightarrow> []
      | c # cs \<Rightarrow> if p c then run R (b @ c # takeWhile p cs, dropWhile p cs, g) else [])"
  using concat_map_star [of p "run R", OF assms] by (cases a) simp_all

lemma run_Plus:
  "run (Plus p) (b, a, g) =
     (case a of [] \<Rightarrow> [] | c # cs \<Rightarrow> if p c then star p (b @ [c], cs, g) else [])"
  by (cases a) simp_all

lemma run_Seq_Bol:
  "run (Seq Bol R) (b, a, g) = (if b = [] then run R (b, a, g) else [])"
  by simp

lemma run_tail:
  "run (Seq (Group 2 (Star is_dot)) Eol) (b, a, g) =
     (if list_all is_dot a then [(b @ a, [], g(2 \<mapsto> a))] else [])"
proof -
  let ?f = "\<lambda>st. run Eol (capture 2 (b, a, g) st)"
  have "run (Seq (Group 2 (Star is_dot)) Eol) (b, a, g) = concat (map ?f (star is_dot (b, a, g)))"
    by (simp add: comp_def)
  also have "\<dots> = ?f (b @ takeWhile is_dot a, dropWhile is_dot a, g)"
    by (rule concat_map_star) simp
  also have "\<dots> = (if list_all is_dot a then [(b @ a, [], g(2 \<mapsto> a))] else [])"
    by (auto simp: list_all_iff dropWhile_eq_Nil_conv takeWhile_eq_all_conv [THEN iffD2])
  finally show ?thesis .
qed

lemma res2_Nil [simp]: "res2 [] = None"
  by (simp add: res2_def)

lemma res2_append:
  "res2 (xs @ ys) = (case res2 xs of Some v \<Rightarrow> Some v | None \<Rightarrow> res2 ys)"
  by (cases xs) (auto simp: res2_def)

lemma finish_eq:
  "finish (b0, a0, g0) (b, a, g) =
     (if list_all is_dot a then [(b @ a, [], (g(1 \<mapsto> drop (length b0) b))(2 \<mapsto> a))] else [])"
  by (simp only: finish_def capture.simps run_tail)

lemma list_all_dropWhile: "list_all P xs \<Longrightarrow> list_all P (dropWhile Q xs)"
  by (induction xs) auto

lemma res2_finish_star:
  "res2 (concat (map (finish st0) (star is_space (b, u, g)))) =
     (if list_all is_dot (dropWhile is_space u) then Some (Some (dropWhile is_space u)) else None)"
proof (induction u arbitrary: b)
  case Nil
  show ?case by (cases st0) (simp add: finish_eq res2_def)
next
  case (Cons c cs)
  obtain b0 a0 g0 where st0: "st0 = (b0, a0, g0)" by (cases st0)
  show ?case
  proof (cases "is_space c")
    case True
    have "\<not> list_all is_dot (dropWhile is_space cs) \<Longrightarrow> \<not> list_all is_dot (c # cs)"
      using list_all_dropWhile [of is_dot cs is_space] by auto
    then show ?thesis
      using True Cons.IH [of "b @ [c]"]
      by (auto simp: res2_append st0 finish_eq)
  next
    case False
    then show ?thesis by (simp add: st0 finish_eq res2_def)
  qed
qed

lemma res2_finish_Plus:
  "res2 (concat (map (finish st0) (run (Plus is_space) (b, t, g)))) = map_option Some (after_space t)"
  by (cases t) (auto simp: run_Plus res2_finish_star after_space_def)

lemma run_PREFIX_BULLET:
  "run PREFIX_BULLET (b, a, g) =
     (case dropWhile is_space a of
        [] \<Rightarrow> []
      | x # t \<Rightarrow>
          if is_bullet x then run (Plus is_space) (b @ takeWhile is_space a @ [x], t, g) else [])"
proof -
  have rej: "\<And>b c cs g. is_space c \<Longrightarrow> run (Seq (Cls is_bullet) (Plus is_space)) (b, c # cs, g) = []"
    by (simp only: run_Seq_Cls) (simp add: space_not_bullet)
  show ?thesis
    unfolding PREFIX_BULLET_def
    by (simp only: run_Seq_Star [OF rej] run_Seq_Cls) (simp only: append_assoc append.simps refl if_True)
qed

lemma run_PREFIX_NUMBER:
  "run PREFIX_NUMBER ([], a, g) =
     (case dropWhile is_space a of
        [] \<Rightarrow> []
      | x # t \<Rightarrow>
          if is_digit x then
            (case dropWhile is_digit t of
               [] \<Rightarrow> []
             | y # u \<Rightarrow>
                 if is_period y
                 then run (Plus is_space) (takeWhile is_space a @ x # takeWhile is_digit t @ [y], u, g)
                 else [])
          else [])"
proof -
  let ?R = "Seq (Cls is_period) (Plus is_space)"
  have rej1: "\<And>b c cs g. is_digit c \<Longrightarrow> run ?R (b, c # cs, g) = []"
    by (simp only: run_Seq_Cls) (simp add: digit_not_period)
  have rej2: "\<And>b c cs g. is_space c \<Longrightarrow> run (Seq (Plus is_digit) ?R) (b, c # cs, g) = []"
    by (simp only: run_Seq_Plus [OF rej1]) (simp add: space_not_digit)
  show ?thesis
    unfolding PREFIX_NUMBER_def
    by (simp only: run_Seq_Bol run_Seq_Star [OF rej2] run_Seq_Plus [OF rej1] run_Seq_Cls)
      (simp only: append_assoc append.simps refl if_True)
qed

lemma run_PREFIX_LETTER:
  "run PREFIX_LETTER ([], a, g) =
     (case dropWhile is_space a of
        [] \<Rightarrow> []
      | x # t \<Rightarrow>
          if is_alpha x then
            (case t of
               [] \<Rightarrow> []
             | y # u \<Rightarrow>
                 if is_period_or_paren y
                 then run (Plus is_space) (takeWhile is_space a @ [x, y], u, g)
                 else [])
          else [])"
proof -
  let ?R = "Seq (Cls is_period_or_paren) (Plus is_space)"
  have rej: "\<And>b c cs g. is_space c \<Longrightarrow> run (Seq (Cls is_alpha) ?R) (b, c # cs, g) = []"
    by (simp only: run_Seq_Cls) (simp add: space_not_alpha)
  show ?thesis
    unfolding PREFIX_LETTER_def
    by (simp only: run_Seq_Bol run_Seq_Star [OF rej] run_Seq_Cls)
      (simp only: append_assoc append.simps refl if_True)
qed

lemma run_PREFIX_ROMAN:
  "run PREFIX_ROMAN ([], a, g) =
     (case dropWhile is_space a of
        [] \<Rightarrow> []
      | x # t \<Rightarrow>
          if is_roman x then
            (case dropWhile is_roman t of
               [] \<Rightarrow> []
             | y # u \<Rightarrow>
                 if is_period y
                 then run (Plus is_space) (takeWhile is_space a @ x # takeWhile is_roman t @ [y], u, g)
                 else [])
          else [])"
proof -
  let ?R = "Seq (Cls is_period) (Plus is_space)"
  have rej1: "\<And>b c cs g. is_roman c \<Longrightarrow> run ?R (b, c # cs, g) = []"
    by (simp only: run_Seq_Cls) (simp add: roman_not_period)
  have rej2: "\<And>b c cs g. is_space c \<Longrightarrow> run (Seq (Plus is_roman) ?R) (b, c # cs, g) = []"
    by (simp only: run_Seq_Plus [OF rej1]) (simp add: space_not_roman)
  show ?thesis
    unfolding PREFIX_ROMAN_def
    by (simp only: run_Seq_Bol run_Seq_Star [OF rej2] run_Seq_Plus [OF rej1] run_Seq_Cls)
      (simp only: append_assoc append.simps refl if_True)
qed

lemma res2_BULLET:
  "res2 (concat (map (finish st0) (run PREFIX_BULLET ([], c, g)))) =
     (case dropWhile is_space c of
        [] \<Rightarrow> None
      | x # t \<Rightarrow> if is_bullet x then map_option Some (after_space t) else None)"
  by (simp del: run.simps dropWhile_eq_Nil_conv add: run_PREFIX_BULLET res2_finish_Plus split: list.splits)

lemma res2_NUMBER:
  "res2 (concat (map (finish st0) (run PREFIX_NUMBER ([], c, g)))) =
     (case dropWhile is_space c of
        [] \<Rightarrow> None
      | x # t \<Rightarrow>
          if is_digit x then
            (case dropWhile is_digit t of
               [] \<Rightarrow> None
             | y # u \<Rightarrow> if is_period y then map_option Some (after_space u) else None)
          else None)"
  by (simp del: run.simps dropWhile_eq_Nil_conv add: run_PREFIX_NUMBER res2_finish_Plus split: list.splits)

lemma res2_LETTER:
  "res2 (concat (map (finish st0) (run PREFIX_LETTER ([], c, g)))) =
     (case dropWhile is_space c of
        [] \<Rightarrow> None
      | x # t \<Rightarrow>
          if is_alpha x then
            (case t of
               [] \<Rightarrow> None
             | y # u \<Rightarrow> if is_period_or_paren y then map_option Some (after_space u) else None)
          else None)"
  by (simp del: run.simps dropWhile_eq_Nil_conv add: run_PREFIX_LETTER res2_finish_Plus split: list.splits)

lemma res2_ROMAN:
  "res2 (concat (map (finish st0) (run PREFIX_ROMAN ([], c, g)))) =
     (case dropWhile is_space c of
        [] \<Rightarrow> None
      | x # t \<Rightarrow>
          if is_roman x then
            (case dropWhile is_roman t of
               [] \<Rightarrow> None
             | y # u \<Rightarrow> if is_period y then map_option Some (after_space u) else None)
          else None)"
  by (simp del: run.simps dropWhile_eq_Nil_conv add: run_PREFIX_ROMAN res2_finish_Plus split: list.splits)

lemma run_PREFIX_REGEX:
  "run PREFIX_REGEX ([], c, g) =
     concat (map (finish ([], c, g)) (run PREFIX_BULLET ([], c, g))) @
     concat (map (finish ([], c, g)) (run PREFIX_NUMBER ([], c, g))) @
     concat (map (finish ([], c, g)) (run PREFIX_LETTER ([], c, g))) @
     concat (map (finish ([], c, g)) (run PREFIX_ROMAN ([], c, g)))"
  by (simp add: PREFIX_REGEX_def finish_def [abs_def] comp_def)

lemma bullet_not_others: "is_bullet x \<Longrightarrow> \<not> is_digit x \<and> \<not> is_alpha x \<and> \<not> is_roman x"
  by (auto simp: is_bullet_def is_digit_def is_alpha_def is_roman_def)

lemma digit_not_alpha: "is_digit x \<Longrightarrow> \<not> is_alpha x"
  by (auto simp: is_digit_def is_alpha_def word_le_nat_alt)

lemma res2_PREFIX_REGEX:
  "res2 (run PREFIX_REGEX ([], c, g)) = map_option Some (detect c)"
proof (cases "dropWhile is_space c")
  case Nil
  then show ?thesis
    by (simp del: dropWhile_eq_Nil_conv add: run_PREFIX_REGEX res2_append res2_BULLET res2_NUMBER res2_LETTER res2_ROMAN
        detect_def marker_end_def)
next
  case (Cons x t)
  consider (bullet) "is_bullet x" | (digit) "is_digit x"
    | (letter) "is_alpha x" | (other) "\<not> is_bullet x" "\<not> is_digit x" "\<not> is_alpha x"
    by blast
  then show ?thesis
  proof cases
    case bullet
    then show ?thesis
      using bullet_not_others [of x] Cons
      by (simp del: dropWhile_eq_Nil_conv add: run_PREFIX_REGEX res2_append res2_BULLET res2_NUMBER res2_LETTER res2_ROMAN
          detect_def marker_end_def split: option.splits)
  next
    case digit
    then show ?thesis
      using bullet_not_others [of x] digit_not_alpha [of x] roman_alpha [of x] Cons
      by (auto simp del: dropWhile_eq_Nil_conv simp add: run_PREFIX_REGEX res2_append res2_BULLET res2_NUMBER res2_LETTER res2_ROMAN
          detect_def marker_end_def split: option.splits list.splits)
  next
    case letter
    show ?thesis
    proof (cases t)
      case Nil
      then show ?thesis
        using bullet_not_others [of x] digit_not_alpha [of x] letter Cons
        by (auto simp del: dropWhile_eq_Nil_conv simp add: run_PREFIX_REGEX res2_append res2_BULLET res2_NUMBER res2_LETTER res2_ROMAN
            detect_def marker_end_def split: option.splits list.splits)
    next
      case (Cons y u)
      then show ?thesis
        using bullet_not_others [of x] digit_not_alpha [of x] letter \<open>dropWhile is_space c = x # t\<close>
          paren_not_roman [of y] period_paren [of y]
        by (auto simp del: dropWhile_eq_Nil_conv simp add: run_PREFIX_REGEX res2_append res2_BULLET res2_NUMBER res2_LETTER res2_ROMAN
            detect_def marker_end_def split: option.splits list.splits)
    qed
  next
    case other
    then show ?thesis
      using roman_alpha [of x] Cons
      by (auto simp del: dropWhile_eq_Nil_conv simp add: run_PREFIX_REGEX res2_append res2_BULLET res2_NUMBER res2_LETTER res2_ROMAN
          detect_def marker_end_def split: option.splits list.splits)
  qed
qed

lemma exec_from_Bol_None:
  "s \<noteq> [] \<Longrightarrow> exec_from (Seq Bol R) s (Suc i) n = None"
  by (induction n arbitrary: i) (simp_all add: exec_at_def)

lemma match_Bol: "match s (Seq Bol R) = exec_at (Seq Bol R) s 0"
proof (cases s)
  case Nil
  then show ?thesis by (simp add: match_def)
next
  case (Cons c cs)
  then have "s \<noteq> []" by simp
  from exec_from_Bol_None [OF this, of R 0 "length cs"] Cons show ?thesis
    by (simp add: match_def split: option.splits)
qed

lemma groups_exec_at:
  "map_option (\<lambda>m. groups m 2) (exec_at r s 0) = res2 (run r ([], s, Map.empty))"
  by (simp add: exec_at_def res2_def split: list.splits)

lemma match_PREFIX_REGEX:
  "map_option (\<lambda>m. groups m 2) (match c PREFIX_REGEX) = map_option Some (detect c)"
proof -
  have "match c PREFIX_REGEX = exec_at PREFIX_REGEX c 0"
    unfolding PREFIX_REGEX_def by (rule match_Bol)
  then show ?thesis
    by (simp only: groups_exec_at res2_PREFIX_REGEX)
qed

lemma match_LEADING_WS_REGEX:
  "map_option matched (match line LEADING_WS_REGEX) = Some (takeWhile is_space line)"
proof -
  have "match line LEADING_WS_REGEX = exec_at LEADING_WS_REGEX line 0"
    unfolding LEADING_WS_REGEX_def by (rule match_Bol)
  moreover have "first_of (run LEADING_WS_REGEX ([], line, Map.empty)) =
      map_option (capture 1 ([], line, Map.empty)) (first_of (star is_space ([], line, Map.empty)))"
    by (cases "star is_space ([], line, Map.empty)") (simp_all add: LEADING_WS_REGEX_def)
  ultimately show ?thesis
    by (cases "run LEADING_WS_REGEX ([], line, Map.empty)")
       (auto simp: exec_at_def first_of_star)
qed

lemma processLine_eq:
  "processLine line p =
     (if trim line = [] then line
      else takeWhile is_space line @ p @ residual (dropWhile is_space line))"
proof -
  obtain m where m: "match line LEADING_WS_REGEX = Some m" "matched m = takeWhile is_space line"
    using match_LEADING_WS_REGEX [of line] by auto
  have d: "drop (length (takeWhile is_space line)) line = dropWhile is_space line"
    by (simp add: dropWhile_eq_drop)
  show ?thesis
    using match_PREFIX_REGEX [of "dropWhile is_space line"]
    by (auto simp: processLine_def m d residual_def Let_def split: option.splits)
qed

lemma all_dropWhile_iff: "(\<forall>x \<in> set (dropWhile P s). P x) \<longleftrightarrow> (\<forall>x \<in> set s. P x)"
  by (induction s) auto

lemma trim_Nil_iff: "trim s = [] \<longleftrightarrow> (\<forall>c \<in> set s. is_space c)"
  by (simp add: trim_def dropWhile_eq_Nil_conv all_dropWhile_iff)

section \<open>Lines, positions and markers\<close>

lemma split_nl_not_Nil: "split_nl t \<noteq> []"
  by (induction t) (auto split: list.splits)

lemma split_nl_no_NL: "l \<in> set (split_nl t) \<Longrightarrow> NL \<notin> set l"
  by (induction t arbitrary: l) (auto split: list.splits if_splits)

lemma join_split_nl: "join_nl (split_nl t) = t"
proof (induction t)
  case Nil
  show ?case by simp
next
  case (Cons c cs)
  obtain l ls where s: "split_nl cs = l # ls"
    using split_nl_not_Nil [of cs] by (cases "split_nl cs") auto
  with Cons show ?case by (cases ls) auto
qed

lemma split_nl_append_no_NL:
  "NL \<notin> set l \<Longrightarrow> split_nl (l @ t) = (case split_nl t of [] \<Rightarrow> [l] | x # xs \<Rightarrow> (l @ x) # xs)"
  using split_nl_not_Nil [of t]
  by (induction l) (auto split: list.splits)

lemma split_join_nl:
  "ls \<noteq> [] \<Longrightarrow> \<forall>l \<in> set ls. NL \<notin> set l \<Longrightarrow> split_nl (join_nl ls) = ls"
proof (induction ls rule: join_nl.induct)
  case 1
  then show ?case by simp
next
  case (2 l)
  then show ?case by (simp add: split_nl_append_no_NL [of l "[]", simplified])
next
  case (3 l v va)
  then show ?case by (simp add: split_nl_append_no_NL)
qed

lemma length_mark_lines [simp]: "length (mark_lines mk n ls) = length ls"
  by (induction ls arbitrary: n) auto

lemma position_0 [simp]: "position ls 0 = 0"
  by (simp add: position_def)

lemma position_Suc_Cons:
  "position (l # ls) (Suc i) = (if trim l = [] then position ls i else Suc (position ls i))"
  by (simp add: position_def)

lemma mark_lines_nth:
  "i < length ls \<Longrightarrow>
   mark_lines mk n ls ! i =
     (if trim (ls ! i) = [] then ls ! i else processLine (ls ! i) (mk (n + position ls i)))"
proof (induction ls arbitrary: n i)
  case Nil
  then show ?case by simp
next
  case (Cons l ls)
  show ?case
  proof (cases i)
    case 0
    then show ?thesis by simp
  next
    case (Suc j)
    with Cons.prems have "j < length ls" by simp
    from Cons.IH [OF this] Suc show ?thesis
      by (simp add: position_Suc_Cons)
  qed
qed

lemma bullet_lines_eq: "bullet_lines ls = mark_lines (\<lambda>n. js ''- '') k ls"
  by (induction ls arbitrary: k) auto

lemma checkbox_lines_eq: "checkbox_lines ls = mark_lines (\<lambda>n. js ''- [ ] '') k ls"
  by (induction ls arbitrary: k) auto

lemma numbered_lines_eq:
  "numbered_lines (Suc k) ls = mark_lines (\<lambda>n. decimal (n + 1) @ js ''. '') k ls"
  by (induction ls arbitrary: k) auto

lemma roman_lines_eq:
  "roman_lines numerals k ls =
     mark_lines (\<lambda>n. tmpl (at_index numerals (n mod length numerals)) @ js ''. '') k ls"
  by (induction ls arbitrary: k) auto

lemma alphabetical_lines_lower_step:
  "alphabetical_lines True (97 + k mod 26) (l # ls) =
     (if trim l = [] then l # alphabetical_lines True (97 + k mod 26) ls
      else processLine l (fromCharCode (97 + k mod 26) # js ''. '') #
           alphabetical_lines True (97 + Suc k mod 26) ls)"
proof (cases "k mod 26 = 25")
  case True
  then have "Suc k mod 26 = 0" by (simp add: mod_Suc)
  with True show ?thesis by (simp add: Let_def del: mod_Suc)
next
  case False
  moreover have "k mod 26 < 26" by simp
  ultimately have "k mod 26 < 25" by linarith
  moreover from False have "Suc k mod 26 = Suc (k mod 26)" by (simp add: mod_Suc)
  ultimately show ?thesis by (simp add: Let_def del: mod_Suc)
qed

lemma alphabetical_lines_upper_step:
  "alphabetical_lines False (65 + k mod 26) (l # ls) =
     (if trim l = [] then l # alphabetical_lines False (65 + k mod 26) ls
      else processLine l (fromCharCode (65 + k mod 26) # js ''. '') #
           alphabetical_lines False (65 + Suc k mod 26) ls)"
proof (cases "k mod 26 = 25")
  case True
  then have "Suc k mod 26 = 0" by (simp add: mod_Suc)
  with True show ?thesis by (simp add: Let_def del: mod_Suc)
next
  case False
  moreover have "k mod 26 < 26" by simp
  ultimately have "k mod 26 < 25" by linarith
  moreover from False have "Suc k mod 26 = Suc (k mod 26)" by (simp add: mod_Suc)
  ultimately show ?thesis by (simp add: Let_def del: mod_Suc)
qed

lemma alphabetical_lines_lower_eq:
  "alphabetical_lines True (97 + k mod 26) ls =
     mark_lines (\<lambda>n. fromCharCode (97 + n mod 26) # js ''. '') k ls"
proof (induction ls arbitrary: k)
  case Nil
  show ?case by simp
next
  case (Cons l ls)
  show ?case
    by (simp only: alphabetical_lines_lower_step mark_lines.simps Cons.IH)
qed

lemma alphabetical_lines_upper_eq:
  "alphabetical_lines False (65 + k mod 26) ls =
     mark_lines (\<lambda>n. fromCharCode (65 + n mod 26) # js ''. '') k ls"
proof (induction ls arbitrary: k)
  case Nil
  show ?case by simp
next
  case (Cons l ls)
  show ?case
    by (simp only: alphabetical_lines_upper_step mark_lines.simps Cons.IH)
qed

lemma alphabet_lower_table:
  "\<forall>m \<in> set [0..<26]. fromCharCode (97 + m) = js ''abcdefghijklmnopqrstuvwxyz'' ! m"
  by code_simp

lemma alphabet_upper_table:
  "\<forall>m \<in> set [0..<26]. fromCharCode (65 + m) = js ''ABCDEFGHIJKLMNOPQRSTUVWXYZ'' ! m"
  by code_simp

lemma ROMAN_NUMERALS_UPPER_eq: "ROMAN_NUMERALS_UPPER = spec_roman_upper"
  by (simp add: ROMAN_NUMERALS_UPPER_def spec_roman_upper_def)

lemma ROMAN_NUMERALS_LOWER_eq: "ROMAN_NUMERALS_LOWER = spec_roman_lower"
  by code_simp

lemma length_spec_roman [simp]: "length spec_roman_upper = 20" "length spec_roman_lower = 20"
  by (simp_all add: spec_roman_upper_def spec_roman_lower_def)

lemma alphabetical_marker_lower:
  "fromCharCode (97 + n mod 26) # js ''. '' = spec_marker Alphabetical n"
  using alphabet_lower_table by simp

lemma alphabetical_marker_upper:
  "fromCharCode (65 + n mod 26) # js ''. '' = spec_marker AlphabeticalUpper n"
  using alphabet_upper_table by simp

lemma roman_marker_lower:
  "tmpl (at_index ROMAN_NUMERALS_LOWER (n mod length ROMAN_NUMERALS_LOWER)) @ js ''. '' =
     spec_marker Roman n"
  by (simp add: ROMAN_NUMERALS_LOWER_eq at_index_def)

lemma roman_marker_upper:
  "tmpl (at_index ROMAN_NUMERALS_UPPER (n mod length ROMAN_NUMERALS_UPPER)) @ js ''. '' =
     spec_marker RomanUpper n"
  by (simp add: ROMAN_NUMERALS_UPPER_eq at_index_def)

lemma formattedText_eq:
  "formattedText s text = join_nl (mark_lines (spec_marker s) 0 (split_nl text))"
proof (cases s)
  case Bullet
  have "spec_marker Bullet = (\<lambda>n. js ''- '')" by (rule ext) simp
  with Bullet show ?thesis
    by (simp add: formatBulletList_def bullet_lines_eq [of _ 0])
next
  case Numbered
  have "spec_marker Numbered = (\<lambda>n. decimal (n + 1) @ js ''. '')" by (rule ext) simp
  with Numbered show ?thesis
    using numbered_lines_eq [of 0] by (simp add: formatNumberedList_def)
next
  case Alphabetical
  have "spec_marker Alphabetical = (\<lambda>n. fromCharCode (97 + n mod 26) # js ''. '')"
    by (rule ext) (simp only: alphabetical_marker_lower)
  with Alphabetical show ?thesis
    using alphabetical_lines_lower_eq [of 0] by (simp add: formatAlphabeticalList_def)
next
  case AlphabeticalUpper
  have "spec_marker AlphabeticalUpper = (\<lambda>n. fromCharCode (65 + n mod 26) # js ''. '')"
    by (rule ext) (simp only: alphabetical_marker_upper)
  with AlphabeticalUpper show ?thesis
    using alphabetical_lines_upper_eq [of 0] by (simp add: formatAlphabeticalList_def)
next
  case Roman
  have "spec_marker Roman =
      (\<lambda>n. tmpl (at_index ROMAN_NUMERALS_LOWER (n mod length ROMAN_NUMERALS_LOWER)) @ js ''. '')"
    by (rule ext) (simp only: roman_marker_lower)
  with Roman show ?thesis
    by (simp add: formatRomanList_def roman_lines_eq)
next
  case RomanUpper
  have "spec_marker RomanUpper =
      (\<lambda>n. tmpl (at_index ROMAN_NUMERALS_UPPER (n mod length ROMAN_NUMERALS_UPPER)) @ js ''. '')"
    by (rule ext) (simp only: roman_marker_upper)
  with RomanUpper show ?thesis
    by (simp add: formatRomanList_def roman_lines_eq)
next
  case Checkbox
  have "spec_marker Checkbox = (\<lambda>n. js ''- [ ] '')" by (rule ext) simp
  with Checkbox show ?thesis
    by (simp add: formatCheckboxList_def checkbox_lines_eq [of _ 0])
qed

lemma digit_char: "d < 10 \<Longrightarrow> is_digit (0x30 + of_nat d)"
proof -
  assume "d < 10"
  then have "d \<in> set [0..<10]" by simp
  moreover have "\<forall>d \<in> set [0..<10]. is_digit (0x30 + of_nat d)" by code_simp
  ultimately show ?thesis by blast
qed

lemma decimal_not_Nil: "decimal n \<noteq> []"
  by (subst decimal.simps) simp

lemma decimal_digits: "c \<in> set (decimal n) \<Longrightarrow> is_digit c"
proof (induction n arbitrary: c rule: decimal.induct)
  case (1 n)
  show ?case
  proof (cases "n < 10")
    case True
    with "1.prems" show ?thesis
      by (subst (asm) decimal.simps) (simp add: digit_char)
  next
    case False
    have "n mod 10 < 10" by simp
    with False "1.prems" "1.IH" show ?thesis
      by (subst (asm) decimal.simps) (auto simp: digit_char)
  qed
qed

lemma digit_not_NL: "is_digit c \<Longrightarrow> c \<noteq> NL"
  by (auto simp: is_digit_def NL_def)

lemma NL_space: "is_space NL"
  by (simp add: is_space_def NL_def)

lemma alphabet_lower_chars:
  "\<forall>c \<in> set (js ''abcdefghijklmnopqrstuvwxyz''). \<not> is_space c"
  by code_simp

lemma alphabet_upper_chars:
  "\<forall>c \<in> set (js ''ABCDEFGHIJKLMNOPQRSTUVWXYZ''). \<not> is_space c"
  by code_simp

lemma roman_lower_chars:
  "\<forall>x \<in> set spec_roman_lower. x \<noteq> [] \<and> (\<forall>c \<in> set x. \<not> is_space c)"
  by code_simp

lemma roman_upper_chars:
  "\<forall>x \<in> set spec_roman_upper. x \<noteq> [] \<and> (\<forall>c \<in> set x. \<not> is_space c)"
  by code_simp

lemma tail_chars: "c \<in> set (js ''. '') \<Longrightarrow> c \<noteq> NL"
  by (auto simp: js_def NL_def)

lemma spec_marker_no_NL: "NL \<notin> set (spec_marker s n)"
proof (cases s)
  case Bullet
  then show ?thesis by (simp add: js_def NL_def)
next
  case Numbered
  then show ?thesis using digit_not_NL decimal_digits tail_chars by auto
next
  case Alphabetical
  have "js ''abcdefghijklmnopqrstuvwxyz'' ! (n mod 26) \<in> set (js ''abcdefghijklmnopqrstuvwxyz'')"
    by (rule nth_mem) (simp add: js_def)
  with alphabet_lower_chars NL_space Alphabetical tail_chars show ?thesis by auto
next
  case AlphabeticalUpper
  have "js ''ABCDEFGHIJKLMNOPQRSTUVWXYZ'' ! (n mod 26) \<in> set (js ''ABCDEFGHIJKLMNOPQRSTUVWXYZ'')"
    by (rule nth_mem) (simp add: js_def)
  with alphabet_upper_chars NL_space AlphabeticalUpper tail_chars show ?thesis by auto
next
  case Roman
  have "spec_roman_lower ! (n mod 20) \<in> set spec_roman_lower"
    by (rule nth_mem) simp
  with roman_lower_chars NL_space Roman tail_chars show ?thesis by auto
next
  case RomanUpper
  have "spec_roman_upper ! (n mod 20) \<in> set spec_roman_upper"
    by (rule nth_mem) simp
  with roman_upper_chars NL_space RomanUpper tail_chars show ?thesis by auto
next
  case Checkbox
  then show ?thesis by (simp add: js_def NL_def)
qed

lemma spec_marker_head:
  "\<exists>c cs. spec_marker s n = c # cs \<and> \<not> is_space c"
proof (cases s)
  case Bullet
  then show ?thesis by (simp add: js_def is_space_def)
next
  case Numbered
  obtain c cs where d: "decimal (n + 1) = c # cs"
    using decimal_not_Nil [of "n + 1"] by (cases "decimal (n + 1)") auto
  then have "c \<in> set (decimal (n + 1))" by simp
  then have "\<not> is_space c" using decimal_digits space_not_digit by blast
  with d Numbered show ?thesis by simp
next
  case Alphabetical
  have "js ''abcdefghijklmnopqrstuvwxyz'' ! (n mod 26) \<in> set (js ''abcdefghijklmnopqrstuvwxyz'')"
    by (rule nth_mem) (simp add: js_def)
  with alphabet_lower_chars Alphabetical show ?thesis by auto
next
  case AlphabeticalUpper
  have "js ''ABCDEFGHIJKLMNOPQRSTUVWXYZ'' ! (n mod 26) \<in> set (js ''ABCDEFGHIJKLMNOPQRSTUVWXYZ'')"
    by (rule nth_mem) (simp add: js_def)
  with alphabet_upper_chars AlphabeticalUpper show ?thesis by auto
next
  case Roman
  have m: "spec_roman_lower ! (n mod 20) \<in> set spec_roman_lower"
    by (rule nth_mem) simp
  with roman_lower_chars have
    "spec_roman_lower ! (n mod 20) \<noteq> [] \<and> (\<forall>c \<in> set (spec_roman_lower ! (n mod 20)). \<not> is_space c)"
    by blast
  then obtain c cs where "spec_roman_lower ! (n mod 20) = c # cs" "\<not> is_space c"
    by (cases "spec_roman_lower ! (n mod 20)") auto
  with Roman show ?thesis by simp
next
  case RomanUpper
  have m: "spec_roman_upper ! (n mod 20) \<in> set spec_roman_upper"
    by (rule nth_mem) simp
  with roman_upper_chars have
    "spec_roman_upper ! (n mod 20) \<noteq> [] \<and> (\<forall>c \<in> set (spec_roman_upper ! (n mod 20)). \<not> is_space c)"
    by blast
  then obtain c cs where "spec_roman_upper ! (n mod 20) = c # cs" "\<not> is_space c"
    by (cases "spec_roman_upper ! (n mod 20)") auto
  with RomanUpper show ?thesis by simp
next
  case Checkbox
  then show ?thesis by (simp add: js_def is_space_def)
qed

lemma after_space_suffix: "after_space t = Some r \<Longrightarrow> \<exists>w. t = w @ r"
proof -
  assume a: "after_space t = Some r"
  then obtain s u where t: "t = s # u" and r: "r = dropWhile is_space u"
    by (auto simp: after_space_def split: list.splits if_splits)
  have "t = (s # takeWhile is_space u) @ r"
    by (simp add: t r)
  then show ?thesis by blast
qed

lemma marker_end_suffix: "marker_end c = Some t \<Longrightarrow> \<exists>m. c = m @ t"
proof -
  assume a: "marker_end c = Some t"
  obtain x v where d: "dropWhile is_space c = x # v"
    using a by (cases "dropWhile is_space c") (auto simp: marker_end_def)
  have c: "c = takeWhile is_space c @ x # v"
    using takeWhile_dropWhile_id [of is_space c] d by simp
  have "\<exists>m. v = m @ t"
  proof -
    from a d consider "t = v"
      | y where "dropWhile is_digit v = y # t"
      | "t = tl v"
      | y where "dropWhile is_roman v = y # t"
      by (auto simp: marker_end_def simp del: dropWhile_eq_Nil_conv split: if_splits list.splits)
    then show ?thesis
    proof cases
      case 1
      then show ?thesis by simp
    next
      case 2
      then have "v = (takeWhile is_digit v @ [y]) @ t"
        using takeWhile_dropWhile_id [of is_digit v] by simp
      then show ?thesis by blast
    next
      case 3
      then have "v = take 1 v @ t" by (cases v) auto
      then show ?thesis by blast
    next
      case 4
      then have "v = (takeWhile is_roman v @ [y]) @ t"
        using takeWhile_dropWhile_id [of is_roman v] by simp
      then show ?thesis by blast
    qed
  qed
  then obtain m where "v = m @ t" by blast
  with c have "c = (takeWhile is_space c @ x # m) @ t" by simp
  then show ?thesis by blast
qed

lemma detect_suffix: "detect c = Some r \<Longrightarrow> \<exists>old. c = old @ r"
proof -
  assume "detect c = Some r"
  then obtain t where "marker_end c = Some t" "after_space t = Some r"
    by (auto simp: detect_def split: option.splits)
  then obtain m w where "c = m @ t" "t = w @ r"
    using marker_end_suffix after_space_suffix by blast
  then have "c = (m @ w) @ r" by simp
  then show ?thesis by blast
qed

lemma residual_suffix: "\<exists>old. c = old @ residual c"
  using detect_suffix [of c] by (cases "detect c") (auto simp: residual_def)

lemma processLine_no_NL:
  assumes "NL \<notin> set l" "NL \<notin> set p"
  shows "NL \<notin> set (processLine l p)"
proof -
  obtain old where o: "dropWhile is_space l = old @ residual (dropWhile is_space l)"
    using residual_suffix by blast
  have "set (residual (dropWhile is_space l)) \<subseteq> set (dropWhile is_space l)"
    by (subst (2) o) simp
  also have "\<dots> \<subseteq> set l" by (auto dest: set_dropWhileD)
  finally have "NL \<notin> set (residual (dropWhile is_space l))" using assms by blast
  moreover have "NL \<notin> set (takeWhile is_space l)" using assms by (auto dest: set_takeWhileD)
  ultimately show ?thesis using assms by (simp add: processLine_eq)
qed

lemma mark_lines_no_NL:
  "\<forall>l \<in> set ls. NL \<notin> set l \<Longrightarrow> \<forall>l \<in> set (mark_lines (spec_marker s) n ls). NL \<notin> set l"
  by (induction ls arbitrary: n) (auto simp: processLine_no_NL spec_marker_no_NL)

lemma mark_lines_not_Nil: "ls \<noteq> [] \<Longrightarrow> mark_lines mk n ls \<noteq> []"
  by (cases ls) auto

lemma lines_formattedText:
  "split_nl (formattedText s text) = mark_lines (spec_marker s) 0 (split_nl text)"
proof -
  have "\<forall>l \<in> set (split_nl text). NL \<notin> set l"
    using split_nl_no_NL by blast
  then have "\<forall>l \<in> set (mark_lines (spec_marker s) 0 (split_nl text)). NL \<notin> set l"
    by (rule mark_lines_no_NL)
  moreover have "mark_lines (spec_marker s) 0 (split_nl text) \<noteq> []"
    by (simp add: mark_lines_not_Nil split_nl_not_Nil)
  ultimately show ?thesis
    unfolding formattedText_eq by (rule split_join_nl [rotated])
qed

lemma lines_join:
  "ls \<noteq> [] \<Longrightarrow> \<forall>l \<in> set ls. NL \<notin> set l \<Longrightarrow>
   split_nl (formattedText s (join_nl ls)) = mark_lines (spec_marker s) 0 ls"
  by (simp add: lines_formattedText split_join_nl)

lemma mark_lines_append:
  "mark_lines mk n (xs @ ys) =
     mark_lines mk n xs @ mark_lines mk (n + length (filter (\<lambda>l. trim l \<noteq> []) xs)) ys"
  by (induction xs arbitrary: n) auto

section \<open>The output line by line\<close>

lemma line_facts:
  assumes "i < length (split_nl text)"
  shows "split_nl (formattedText s text) ! i =
     (if trim (split_nl text ! i) = [] then split_nl text ! i
      else takeWhile is_space (split_nl text ! i) @ spec_marker s (position (split_nl text) i) @
           residual (dropWhile is_space (split_nl text ! i)))"
  using mark_lines_nth [OF assms, of "spec_marker s" 0]
  by (simp add: lines_formattedText processLine_eq)

lemma residual_match:
  "(case match c PREFIX_REGEX of Some m \<Rightarrow> tmpl (groups m 2) | None \<Rightarrow> c) = residual c"
  using match_PREFIX_REGEX [of c]
  by (cases "match c PREFIX_REGEX"; cases "detect c") (auto simp: residual_def)

lemma match_None_iff: "match c PREFIX_REGEX = None \<longleftrightarrow> detect c = None"
  using match_PREFIX_REGEX [of c]
  by (cases "match c PREFIX_REGEX"; cases "detect c") auto

lemma takeWhile_indent:
  assumes "\<not> is_space c"
  shows "takeWhile is_space (takeWhile is_space l @ c # cs) = takeWhile is_space l"
proof -
  have "\<And>x. x \<in> set (takeWhile is_space l) \<Longrightarrow> is_space x"
    by (auto dest: set_takeWhileD)
  then have "takeWhile is_space (takeWhile is_space l @ c # cs) =
      takeWhile is_space l @ takeWhile is_space (c # cs)"
    by (rule takeWhile_append2)
  with assms show ?thesis by simp
qed

lemma style_line:
  assumes "i < length (split_nl text)" "trim (split_nl text ! i) \<noteq> []"
  shows "split_nl (formattedText s text) ! i =
     processLine (split_nl text ! i) (spec_marker s (position (split_nl text) i))"
  using mark_lines_nth [OF assms(1), of "spec_marker s" 0] assms(2)
  by (simp add: lines_formattedText)

lemma processLine_shape:
  "trim l \<noteq> [] \<Longrightarrow> \<exists>r. processLine l p = takeWhile is_space l @ p @ r"
  by (simp add: processLine_eq)

lemma match_LEADING_WS_REGEX_Some: "match line LEADING_WS_REGEX \<noteq> None"
  using match_LEADING_WS_REGEX [of line] by auto

lemma group2_present: "match c PREFIX_REGEX = Some m \<Longrightarrow> groups m 2 \<noteq> None"
  using match_PREFIX_REGEX [of c] by (cases "detect c") auto

text \<open>What a successful match of \<open>PREFIX_REGEX\<close> removes: the body of a marker and white space.\<close>

lemma after_space_shape:
  assumes "after_space t = Some r"
  shows "\<exists>w. t = w @ r \<and> w \<noteq> [] \<and> list_all is_space w"
proof -
  from assms obtain s u where t: "t = s # u" "is_space s" and r: "r = dropWhile is_space u"
    by (auto simp: after_space_def split: list.splits if_splits)
  have "t = (s # takeWhile is_space u) @ r" by (simp add: t r)
  moreover have "list_all is_space (s # takeWhile is_space u)"
    using t(2) by (auto simp: list_all_iff dest: set_takeWhileD)
  ultimately show ?thesis by blast
qed

lemma list_all_takeWhile: "list_all P (takeWhile P xs)"
  by (auto simp: list_all_iff dest: set_takeWhileD)

lemma marker_end_shape:
  assumes "dropWhile is_space c = c" "marker_end c = Some t"
  shows "\<exists>m. c = m @ t \<and> marker_body m"
proof -
  obtain x v where c: "c = x # v"
    using assms by (cases c) (auto simp: marker_end_def)
  have d: "dropWhile is_space c = x # v" using assms(1) c by simp
  from assms(2) d consider
      (bullet) "is_bullet x" "t = v"
    | (number) y where "is_digit x" "dropWhile is_digit v = y # t" "is_period y"
    | (letter) y where "is_alpha x" "v = y # t" "is_period_or_paren y"
    | (roman) y where "is_roman x" "dropWhile is_roman v = y # t" "is_period y"
    by (auto simp: marker_end_def simp del: dropWhile_eq_Nil_conv split: if_splits list.splits)
  then show ?thesis
  proof cases
    case bullet
    then have "c = [x] @ t" "marker_body [x]" by (simp_all add: c marker_body_def)
    then show ?thesis by blast
  next
    case number
    let ?m = "x # takeWhile is_digit v @ [y]"
    have "v = takeWhile is_digit v @ y # t"
      using takeWhile_dropWhile_id [of is_digit v] number(2) by simp
    then have "c = ?m @ t" by (simp add: c)
    moreover have "marker_body ?m"
      using number(1,3) by (simp add: marker_body_def list_all_takeWhile)
    ultimately show ?thesis by blast
  next
    case letter
    then have "c = [x, y] @ t" "marker_body [x, y]" by (simp_all add: c marker_body_def)
    then show ?thesis by blast
  next
    case roman
    let ?m = "x # takeWhile is_roman v @ [y]"
    have "v = takeWhile is_roman v @ y # t"
      using takeWhile_dropWhile_id [of is_roman v] roman(2) by simp
    then have "c = ?m @ t" by (simp add: c)
    moreover have "marker_body ?m"
      using roman(1,3) by (simp add: marker_body_def list_all_takeWhile)
    ultimately show ?thesis by blast
  qed
qed

lemma detect_shape:
  assumes "dropWhile is_space c = c" "detect c = Some r"
  shows "\<exists>m w. c = m @ w @ r \<and> marker_body m \<and> w \<noteq> [] \<and> list_all is_space w"
proof -
  from assms(2) obtain t where t: "marker_end c = Some t" "after_space t = Some r"
    by (auto simp: detect_def split: option.splits)
  from marker_end_shape [OF assms(1) t(1)] obtain m where "c = m @ t" "marker_body m" by blast
  moreover from after_space_shape [OF t(2)] obtain w where
    "t = w @ r" "w \<noteq> []" "list_all is_space w" by blast
  ultimately show ?thesis by blast
qed

lemma match_Some_iff:
  "(\<exists>m. match c PREFIX_REGEX = Some m \<and> groups m 2 = Some r) \<longleftrightarrow> detect c = Some r"
  using match_PREFIX_REGEX [of c]
  by (cases "match c PREFIX_REGEX"; cases "detect c") auto

section \<open>Lines without a line terminator\<close>

lemma const_mark_lines:
  "mark_lines (\<lambda>n. p) k ls = map (\<lambda>l. if trim l = [] then l else processLine l p) ls"
  by (induction ls arbitrary: k) auto

lemma dropWhile_content:
  assumes "\<not> is_space c"
  shows "dropWhile is_space (takeWhile is_space l @ c # cs) = c # cs"
proof -
  have "\<And>x. x \<in> set (takeWhile is_space l) \<Longrightarrow> is_space x"
    by (auto dest: set_takeWhileD)
  then have "dropWhile is_space (takeWhile is_space l @ c # cs) = dropWhile is_space (c # cs)"
    by (rule dropWhile_append2)
  with assms show ?thesis by simp
qed

lemma after_space_Some:
  "after_space t = Some r \<Longrightarrow> dropWhile is_space r = r \<and> list_all is_dot r"
  by (auto simp: after_space_def dropWhile_idem split: list.splits if_splits)

lemma detect_Some:
  "detect c = Some r \<Longrightarrow> dropWhile is_space r = r \<and> list_all is_dot r"
  by (auto simp: detect_def split: option.splits dest: after_space_Some)

lemma residual_clean:
  assumes "list_all is_dot l"
  shows "dropWhile is_space (residual (dropWhile is_space l)) = residual (dropWhile is_space l) \<and>
    list_all is_dot (residual (dropWhile is_space l))"
proof (cases "detect (dropWhile is_space l)")
  case None
  then show ?thesis
    using assms by (simp add: residual_def dropWhile_idem list_all_dropWhile)
next
  case (Some r)
  then show ?thesis
    using detect_Some [OF Some] by (simp add: residual_def)
qed

lemma detect_bullet_space:
  assumes "dropWhile is_space r = r" "list_all is_dot r"
  shows "detect (js ''- '' @ r) = Some r"
proof -
  have "\<not> is_space 0x2D" "is_bullet 0x2D" "is_space 0x20"
    by (simp_all add: is_space_def is_bullet_def)
  then show ?thesis
    using assms by (simp add: detect_def marker_end_def after_space_def js_def)
qed

lemma detect_bullet_checkbox:
  assumes "list_all is_dot r"
  shows "detect (js ''- '' @ js ''[ ] '' @ r) = Some (js ''[ ] '' @ r)"
proof -
  have "\<not> is_space 0x2D" "is_bullet 0x2D" "is_space 0x20" "\<not> is_space 0x5B"
    "is_dot 0x5B" "is_dot 0x20" "is_dot 0x5D"
    by (simp_all add: is_space_def is_bullet_def is_dot_def is_line_terminator_def)
  then show ?thesis
    using assms by (simp add: detect_def marker_end_def after_space_def js_def)
qed

lemma trim_marked:
  assumes "\<not> is_space c"
  shows "trim (w @ c # cs) \<noteq> []"
  using assms by (auto simp: trim_Nil_iff)

lemma bullet_line_fixed:
  assumes "list_all is_dot l" "trim l \<noteq> []"
  shows "processLine (processLine l (js ''- '')) (js ''- '') = processLine l (js ''- '')"
proof -
  let ?W = "takeWhile is_space l"
  let ?R = "residual (dropWhile is_space l)"
  have ns: "\<not> is_space (0x2D :: jschar)" by (simp add: is_space_def)
  have p: "js ''- '' = [0x2D, 0x20]" by (simp add: js_def)
  have 1: "processLine l (js ''- '') = ?W @ 0x2D # 0x20 # ?R"
    using assms(2) by (simp add: processLine_eq p)
  have 2: "trim (?W @ 0x2D # 0x20 # ?R) \<noteq> []"
    using ns by (rule trim_marked)
  have 3: "takeWhile is_space (?W @ 0x2D # 0x20 # ?R) = ?W"
    using ns by (rule takeWhile_indent)
  have 4: "dropWhile is_space (?W @ 0x2D # 0x20 # ?R) = js ''- '' @ ?R"
    using dropWhile_content [OF ns] by (simp add: p)
  have 5: "residual (js ''- '' @ ?R) = ?R"
    using residual_clean [OF assms(1)] detect_bullet_space [of ?R] by (simp add: residual_def)
  show ?thesis
    unfolding 1 by (simp add: processLine_eq [of "?W @ 0x2D # 0x20 # ?R"] 2 3 4 5) (simp add: p)
qed

lemma checkbox_line_fixed:
  assumes "list_all is_dot l" "trim l \<noteq> []"
  shows "processLine (processLine l (js ''- [ ] '')) (js ''- '') = processLine l (js ''- [ ] '')"
proof -
  let ?W = "takeWhile is_space l"
  let ?R = "residual (dropWhile is_space l)"
  have ns: "\<not> is_space (0x2D :: jschar)" by (simp add: is_space_def)
  have p: "js ''- [ ] '' = 0x2D # 0x20 # js ''[ ] ''" "js ''- '' = [0x2D, 0x20]"
    by (simp_all add: js_def)
  have 1: "processLine l (js ''- [ ] '') = ?W @ 0x2D # 0x20 # js ''[ ] '' @ ?R"
    using assms(2) by (simp add: processLine_eq p)
  have 2: "trim (?W @ 0x2D # 0x20 # js ''[ ] '' @ ?R) \<noteq> []"
    using ns by (rule trim_marked)
  have 3: "takeWhile is_space (?W @ 0x2D # 0x20 # js ''[ ] '' @ ?R) = ?W"
    using ns by (rule takeWhile_indent)
  have 4: "dropWhile is_space (?W @ 0x2D # 0x20 # js ''[ ] '' @ ?R) = js ''- '' @ js ''[ ] '' @ ?R"
    using dropWhile_content [OF ns] by (simp add: p)
  have 5: "residual (js ''- '' @ js ''[ ] '' @ ?R) = js ''[ ] '' @ ?R"
    using residual_clean [OF assms(1)] detect_bullet_checkbox [of ?R] by (simp add: residual_def)
  show ?thesis
    unfolding 1
    by (simp add: processLine_eq [of "?W @ 0x2D # 0x20 # js ''[ ] '' @ ?R"] 2 3 4 5) (simp add: p)
qed

lemma lines_without_terminator:
  assumes "\<forall>c \<in> set text. is_line_terminator c \<longrightarrow> c = NL" "l \<in> set (split_nl text)"
  shows "list_all is_dot l"
proof -
  have "set l \<subseteq> set text"
    using assms(2)
  proof (induction "text" arbitrary: l)
    case Nil
    then show ?case by simp
  next
    case (Cons c cs)
    obtain x xs where s: "split_nl cs = x # xs"
      using split_nl_not_Nil [of cs] by (cases "split_nl cs") auto
    from Cons.prems s have "l = [] \<or> l = c # x \<or> l \<in> set (split_nl cs)"
      by (auto split: if_splits)
    with Cons.IH [of x] Cons.IH [of l] s show ?case by auto
  qed
  moreover have "NL \<notin> set l" using assms(2) by (rule split_nl_no_NL)
  ultimately show ?thesis
    using assms(1) by (auto simp: list_all_iff is_dot_def)
qed

lemma formatBulletList_lines:
  "formatBulletList text =
     join_nl (map (\<lambda>l. if trim l = [] then l else processLine l (js ''- '')) (split_nl text))"
  by (simp add: formatBulletList_def bullet_lines_eq [of _ 0] const_mark_lines)

lemma formatCheckboxList_lines:
  "formatCheckboxList text =
     join_nl (map (\<lambda>l. if trim l = [] then l else processLine l (js ''- [ ] '')) (split_nl text))"
  by (simp add: formatCheckboxList_def checkbox_lines_eq [of _ 0] const_mark_lines)

lemma after_space_run:
  assumes "w \<noteq> []" "list_all is_space w" "dropWhile is_space r = r" "list_all is_dot r"
  shows "after_space (w @ r) = Some r"
proof -
  obtain s w' where w: "w = s # w'" using assms(1) by (cases w) auto
  have "dropWhile is_space (w' @ r) = dropWhile is_space r"
    using assms(2) by (intro dropWhile_append2) (simp add: w list_all_iff)
  then show ?thesis
    using assms by (simp add: after_space_def w)
qed

lemma dropWhile_class_run:
  assumes "list_all P xs" "\<not> P y"
  shows "dropWhile P (xs @ y # t) = y # t"
proof -
  have "dropWhile P (xs @ y # t) = dropWhile P (y # t)"
    using assms(1) by (intro dropWhile_append2) (simp add: list_all_iff)
  with assms(2) show ?thesis by simp
qed

lemma period_facts:
  "is_period 0x2E" "is_period_or_paren 0x2E" "\<not> is_digit 0x2E" "\<not> is_roman 0x2E"
  by (simp_all add: is_period_def is_period_or_paren_def is_digit_def is_roman_def)

lemma alpha_facts: "is_alpha a \<Longrightarrow> \<not> is_space a \<and> \<not> is_bullet a \<and> \<not> is_digit a"
  using space_not_alpha [of a] bullet_not_others [of a] digit_not_alpha [of a] by blast

lemma marker_end_form:
  assumes "dropWhile is_space c = c"
    and "c = m @ t"
    and "(\<exists>b. is_bullet b \<and> m = [b]) \<or>
         (\<exists>ds. ds \<noteq> [] \<and> list_all is_digit ds \<and> m = ds @ js ''.'') \<or>
         (\<exists>a p. is_alpha a \<and> is_period_or_paren p \<and> m = [a, p]) \<or>
         (\<exists>rs. rs \<noteq> [] \<and> list_all is_roman rs \<and> m = rs @ js ''.'')"
  shows "marker_end c = Some t"
proof -
  have dot: "js ''.'' = [0x2E]" by (simp add: js_def)
  from assms(3) consider
      (bullet) b where "is_bullet b" "m = [b]"
    | (number) d ds where "is_digit d" "list_all is_digit ds" "m = d # ds @ [0x2E]"
    | (letter) a p where "is_alpha a" "is_period_or_paren p" "m = [a, p]"
    | (roman) x rs where "is_roman x" "list_all is_roman rs" "m = x # rs @ [0x2E]"
  proof (elim disjE exE conjE)
    fix b assume "is_bullet b" "m = [b]"
    then show ?thesis by (rule that(1))
  next
    fix ds assume "ds \<noteq> []" "list_all is_digit ds" "m = ds @ js ''.''"
    then show ?thesis by (cases ds) (auto simp: dot intro: that(2))
  next
    fix a p assume "is_alpha a" "is_period_or_paren p" "m = [a, p]"
    then show ?thesis by (rule that(3))
  next
    fix rs assume "rs \<noteq> []" "list_all is_roman rs" "m = rs @ js ''.''"
    then show ?thesis by (cases rs) (auto simp: dot intro: that(4))
  qed
  then show ?thesis
  proof cases
    case bullet
    then show ?thesis
      using assms(1,2) by (simp add: marker_end_def)
  next
    case number
    have "dropWhile is_digit (ds @ 0x2E # t) = 0x2E # t"
      using number(2) period_facts(3) by (rule dropWhile_class_run)
    then show ?thesis
      using assms(1,2) number bullet_not_others [of d] period_facts
      by (auto simp: marker_end_def)
  next
    case letter
    then show ?thesis
      using assms(1,2) alpha_facts [of a] by (simp add: marker_end_def)
  next
    case roman
    have d: "dropWhile is_roman (rs @ 0x2E # t) = 0x2E # t"
      using roman(2) period_facts(4) by (rule dropWhile_class_run)
    have a: "is_alpha x" using roman(1) by (rule roman_alpha)
    show ?thesis
    proof (cases rs)
      case Nil
      then show ?thesis
        using assms(1,2) roman a alpha_facts [of x] period_facts
        by (simp add: marker_end_def)
    next
      case (Cons y ys)
      then have "is_roman y" using roman(2) by simp
      then have "\<not> is_period_or_paren y" using paren_not_roman by blast
      then show ?thesis
        using assms(1,2) roman a alpha_facts [of x] period_facts d Cons
        by (simp add: marker_end_def)
    qed
  qed
qed

section \<open>The claims of the specification\<close>

subsection \<open>C1: an old marker is replaced\<close>

text \<open>
  Claim C1. On every non-blank line whose content begins with a marker (a bullet, or
  digits and a period, or one letter and a period or a parenthesis, or roman letters and a
  period, each followed by white space), every style function discards the old marker
  and puts exactly one new marker before the rest.

  The code does not do this on a line whose text after the old marker holds a line
  terminator other than the separator of \<open>split\<close>: a carriage return (a text with the
  line ends CR LF) or U+2028 or U+2029. There \<open>.\<close> cannot reach the end of the line,
  \<open>PREFIX_REGEX\<close> does not match, and the new marker is put in front of the old one:
  \<open>formatCheckboxList\<close> turns \<open>"* old item\r"\<close> into \<open>"- [ ] * old item\r"\<close>.
\<close>

theorem old_marker_kept_before_line_terminator:
  "formatCheckboxList (js ''* old item'' @ [CR]) = js ''- [ ] * old item'' @ [CR] \<and>
   formatCheckboxList (js ''* old item'' @ [0x2028]) = js ''- [ ] * old item'' @ [0x2028]"
  by code_simp

text \<open>
  On a line whose text after the old marker holds no such code unit, the old marker
  \<open>m\<close> and the white space \<open>w\<close> after it are replaced by the new marker \<open>p\<close>.
\<close>

lemma old_marker_replaced:
  assumes "dropWhile is_space line = m @ w @ r"
    and "(\<exists>b. is_bullet b \<and> m = [b]) \<or>
         (\<exists>ds. ds \<noteq> [] \<and> list_all is_digit ds \<and> m = ds @ js ''.'') \<or>
         (\<exists>a p. is_alpha a \<and> is_period_or_paren p \<and> m = [a, p]) \<or>
         (\<exists>rs. rs \<noteq> [] \<and> list_all is_roman rs \<and> m = rs @ js ''.'')"
    and "w \<noteq> []" "list_all is_space w"
    and "dropWhile is_space r = r" "list_all is_dot r"
  shows "processLine line p = takeWhile is_space line @ p @ r"
proof -
  let ?c = "dropWhile is_space line"
  have "m \<noteq> []" using assms(2) by (auto simp: js_def)
  then have ne: "?c \<noteq> []" using assms(1) by simp
  then have nb: "trim line \<noteq> []"
    by (auto simp: trim_Nil_iff)
  have "marker_end ?c = Some (w @ r)"
    using dropWhile_idem assms(1,2) by (rule marker_end_form)
  moreover have "after_space (w @ r) = Some r"
    using assms(3-6) by (rule after_space_run)
  ultimately have "residual ?c = r"
    by (simp add: residual_def detect_def)
  with nb show ?thesis by (simp add: processLine_eq)
qed

text \<open>
  The examples of the claim: the old bullet is replaced, mixed markers are replaced, and
  a single roman letter is taken by the alternative for letters.
\<close>

lemma prefix_replacement_examples:
  "formatCheckboxList (js ''* old item'') = js ''- [ ] old item''"
  "formatAlphabeticalList (js ''1. First\<newline>- Second\<newline>iii. Third'') True =
     js ''a. First\<newline>b. Second\<newline>c. Third''"
  "formatBulletList (js ''i. item'') = js ''- item''"
  "run PREFIX_LETTER ([], js ''i. item'', Map.empty) \<noteq> []"
  by code_simp+

subsection \<open>C2: numbered lines\<close>

text \<open>
  Claim C2. \<open>formatNumberedList\<close> turns \<open>"a\nb\n\nc"\<close> into \<open>"1. a\n2. b\n\n3. c"\<close>,
  and in every text the non-blank line at position \<open>k - 1\<close> (the \<open>k\<close>-th non-blank line)
  is processed with the marker made of the decimal digits of \<open>k\<close>, a period and a space:
  the output line is the indentation, that marker and a rest. Blank lines do not count.
\<close>

theorem numbered_sequence:
  "formatNumberedList (js ''a\<newline>b\<newline>\<newline>c'') = js ''1. a\<newline>2. b\<newline>\<newline>3. c'' \<and>
   (\<forall>i < length (split_nl text).
      trim (split_nl text ! i) \<noteq> [] \<longrightarrow>
        split_nl (formatNumberedList text) ! i =
          processLine (split_nl text ! i) (decimal (position (split_nl text) i + 1) @ js ''. '') \<and>
        (\<exists>r. split_nl (formatNumberedList text) ! i =
          takeWhile is_space (split_nl text ! i) @
          (decimal (position (split_nl text) i + 1) @ js ''. '') @ r))"
proof (intro conjI allI impI)
  show "formatNumberedList (js ''a\<newline>b\<newline>\<newline>c'') = js ''1. a\<newline>2. b\<newline>\<newline>3. c''"
    by code_simp
next
  fix i
  assume a: "i < length (split_nl text)" "trim (split_nl text ! i) \<noteq> []"
  from style_line [OF a, of Numbered]
  show 1: "split_nl (formatNumberedList text) ! i =
      processLine (split_nl text ! i) (decimal (position (split_nl text) i + 1) @ js ''. '')"
    by simp
  show "\<exists>r. split_nl (formatNumberedList text) ! i =
      takeWhile is_space (split_nl text ! i) @
      (decimal (position (split_nl text) i + 1) @ js ''. '') @ r"
    unfolding 1 using a(2) by (rule processLine_shape)
qed

theorem numbered_sequence_witness:
  "3 < length (split_nl (js ''a\<newline>b\<newline>\<newline>c'')) \<and>
   trim (split_nl (js ''a\<newline>b\<newline>\<newline>c'') ! 3) \<noteq> [] \<and>
   position (split_nl (js ''a\<newline>b\<newline>\<newline>c'')) 3 + 1 = 3 \<and>
   split_nl (formatNumberedList (js ''a\<newline>b\<newline>\<newline>c'')) ! 3 =
     processLine (js ''c'') (js ''3. '')"
proof -
  let ?t = "js ''a\<newline>b\<newline>\<newline>c''"
  have h: "3 < length (split_nl ?t)" "trim (split_nl ?t ! 3) \<noteq> []"
    by code_simp+
  have e: "position (split_nl ?t) 3 + 1 = 3" "split_nl ?t ! 3 = js ''c''" "decimal 3 @ js ''. '' = js ''3. ''"
    by code_simp+
  from numbered_sequence [of ?t] h
  have "split_nl (formatNumberedList ?t) ! 3 =
      processLine (split_nl ?t ! 3) (decimal (position (split_nl ?t) 3 + 1) @ js ''. '')"
    by blast
  with h e show ?thesis by simp
qed

text \<open>The rendering of a counter, on numbers of one and of more digits.\<close>

lemma decimal_examples:
  "decimal 7 = js ''7''"
  "decimal 10 = js ''10''"
  "decimal 2024 = js ''2024''"
  by code_simp+

subsection \<open>C3: blank lines\<close>

text \<open>
  Claim C3. For every text and every style function, a line that is empty or consists
  of white space only is the same in the output; and it does not advance the position:
  with a blank line \<open>b\<close> put between the lines \<open>xs\<close> and \<open>ys\<close>, the output is the
  output for \<open>xs @ ys\<close> with \<open>b\<close> put at the same place.
\<close>

theorem blank_lines_untouched:
  "(\<forall>i < length (split_nl text).
      trim (split_nl text ! i) = [] \<longrightarrow>
      split_nl (formattedText s text) ! i = split_nl text ! i) \<and>
   (trim b = [] \<and> NL \<notin> set b \<and> (\<forall>l \<in> set (xs @ ys). NL \<notin> set l) \<and> xs @ ys \<noteq> [] \<longrightarrow>
      split_nl (formattedText s (join_nl (xs @ b # ys))) =
        take (length xs) (split_nl (formattedText s (join_nl (xs @ ys)))) @ b #
        drop (length xs) (split_nl (formattedText s (join_nl (xs @ ys)))))"
proof (intro conjI allI impI)
  fix i
  assume "i < length (split_nl text)" "trim (split_nl text ! i) = []"
  then show "split_nl (formattedText s text) ! i = split_nl text ! i"
    by (simp add: line_facts)
next
  assume a: "trim b = [] \<and> NL \<notin> set b \<and> (\<forall>l \<in> set (xs @ ys). NL \<notin> set l) \<and> xs @ ys \<noteq> []"
  let ?k = "length (filter (\<lambda>l. trim l \<noteq> []) xs)"
  let ?mk = "spec_marker s"
  have "\<forall>l \<in> set (xs @ b # ys). NL \<notin> set l" using a by auto
  then have 1: "split_nl (formattedText s (join_nl (xs @ b # ys))) =
      mark_lines ?mk 0 xs @ b # mark_lines ?mk ?k ys"
    using a by (simp add: lines_join mark_lines_append)
  have 2: "split_nl (formattedText s (join_nl (xs @ ys))) =
      mark_lines ?mk 0 xs @ mark_lines ?mk ?k ys"
    using a by (simp add: lines_join mark_lines_append)
  show "split_nl (formattedText s (join_nl (xs @ b # ys))) =
        take (length xs) (split_nl (formattedText s (join_nl (xs @ ys)))) @ b #
        drop (length xs) (split_nl (formattedText s (join_nl (xs @ ys))))"
    unfolding 1 2 by simp
qed

theorem blank_lines_untouched_witness:
  "1 < length (split_nl (js ''a\<newline> \<newline>b'')) \<and>
   trim (split_nl (js ''a\<newline> \<newline>b'') ! 1) = [] \<and>
   split_nl (formattedText Numbered (js ''a\<newline> \<newline>b'')) ! 1 = split_nl (js ''a\<newline> \<newline>b'') ! 1 \<and>
   trim (js '' '') = [] \<and> NL \<notin> set (js '' '') \<and> NL \<notin> set (js ''a'') \<and> NL \<notin> set (js ''b'') \<and>
   [js ''a''] @ [js ''b''] \<noteq> [] \<and>
   split_nl (formattedText Numbered (join_nl ([js ''a''] @ js '' '' # [js ''b'']))) =
     take (length [js ''a'']) (split_nl (formattedText Numbered (join_nl ([js ''a''] @ [js ''b''])))) @
     js '' '' #
     drop (length [js ''a'']) (split_nl (formattedText Numbered (join_nl ([js ''a''] @ [js ''b'']))))"
proof -
  let ?t = "js ''a\<newline> \<newline>b''"
  have h: "1 < length (split_nl ?t)" "trim (split_nl ?t ! 1) = []"
    "trim (js '' '') = []" "NL \<notin> set (js '' '')" "NL \<notin> set (js ''a'')" "NL \<notin> set (js ''b'')"
    by code_simp+
  have g: "\<forall>l \<in> set ([js ''a''] @ [js ''b'']). NL \<notin> set l" using h by simp
  have n: "[js ''a''] @ [js ''b''] \<noteq> []" by simp
  from blank_lines_untouched [of ?t Numbered] h
  have 1: "split_nl (formattedText Numbered ?t) ! 1 = split_nl ?t ! 1" by blast
  from blank_lines_untouched [of _ Numbered "js '' ''" "[js ''a'']" "[js ''b'']"] h(3,4) g n
  have 2: "split_nl (formattedText Numbered (join_nl ([js ''a''] @ js '' '' # [js ''b'']))) =
     take (length [js ''a'']) (split_nl (formattedText Numbered (join_nl ([js ''a''] @ [js ''b''])))) @
     js '' '' #
     drop (length [js ''a'']) (split_nl (formattedText Numbered (join_nl ([js ''a''] @ [js ''b'']))))"
    by blast
  from h 1 2 n show ?thesis by blast
qed

subsection \<open>C4: indentation and content\<close>

text \<open>
  Claim C4. For every non-blank line, with \<open>W\<close> its longest prefix of white space and
  \<open>C\<close> the rest, and every style function, the output line is \<open>W\<close>, then the marker of
  the line's position, then the second capture of \<open>PREFIX_REGEX\<close> on \<open>C\<close>, or \<open>C\<close>
  itself when the expression does not match. The longest prefix of white space of the
  output line is \<open>W\<close> again.
\<close>

theorem indentation_and_content:
  "\<forall>i < length (split_nl text).
     trim (split_nl text ! i) \<noteq> [] \<longrightarrow>
       split_nl (formattedText s text) ! i =
         takeWhile is_space (split_nl text ! i) @
         spec_marker s (position (split_nl text) i) @
         (case match (dropWhile is_space (split_nl text ! i)) PREFIX_REGEX of
            Some m \<Rightarrow> tmpl (groups m 2)
          | None \<Rightarrow> dropWhile is_space (split_nl text ! i)) \<and>
       takeWhile is_space (split_nl (formattedText s text) ! i) =
         takeWhile is_space (split_nl text ! i) \<and>
       (match (dropWhile is_space (split_nl text ! i)) PREFIX_REGEX = None \<longrightarrow>
          split_nl (formattedText s text) ! i =
            takeWhile is_space (split_nl text ! i) @
            spec_marker s (position (split_nl text) i) @
            dropWhile is_space (split_nl text ! i))"
proof (intro allI impI)
  fix i
  let ?l = "split_nl text ! i"
  let ?m = "spec_marker s (position (split_nl text) i)"
  assume i: "i < length (split_nl text)" and nb: "trim ?l \<noteq> []"
  have out: "split_nl (formattedText s text) ! i =
      takeWhile is_space ?l @ ?m @ residual (dropWhile is_space ?l)"
    using i nb by (simp add: line_facts)
  obtain c cs where m: "?m = c # cs" "\<not> is_space c"
    using spec_marker_head by blast
  have ind: "takeWhile is_space (split_nl (formattedText s text) ! i) = takeWhile is_space ?l"
    unfolding out m(1) using takeWhile_indent [OF m(2)] by simp
  show "split_nl (formattedText s text) ! i =
         takeWhile is_space ?l @ ?m @
         (case match (dropWhile is_space ?l) PREFIX_REGEX of
            Some m \<Rightarrow> tmpl (groups m 2)
          | None \<Rightarrow> dropWhile is_space ?l) \<and>
       takeWhile is_space (split_nl (formattedText s text) ! i) = takeWhile is_space ?l \<and>
       (match (dropWhile is_space ?l) PREFIX_REGEX = None \<longrightarrow>
          split_nl (formattedText s text) ! i =
            takeWhile is_space ?l @ ?m @ dropWhile is_space ?l)"
    using out ind by (auto simp only: residual_match) (simp add: residual_def match_None_iff)
qed

theorem indentation_and_content_witness:
  "0 < length (split_nl (js ''  * one\<newline> two'')) \<and>
   trim (split_nl (js ''  * one\<newline> two'') ! 0) \<noteq> [] \<and>
   split_nl (formattedText Checkbox (js ''  * one\<newline> two'')) ! 0 = js ''  - [ ] one'' \<and>
   takeWhile is_space (split_nl (formattedText Checkbox (js ''  * one\<newline> two'')) ! 0) = js ''  '' \<and>
   1 < length (split_nl (js ''  * one\<newline> two'')) \<and>
   trim (split_nl (js ''  * one\<newline> two'') ! 1) \<noteq> [] \<and>
   match (dropWhile is_space (split_nl (js ''  * one\<newline> two'') ! 1)) PREFIX_REGEX = None \<and>
   split_nl (formattedText Checkbox (js ''  * one\<newline> two'')) ! 1 = js '' - [ ] two''"
proof -
  let ?t = "js ''  * one\<newline> two''"
  have h: "0 < length (split_nl ?t)" "trim (split_nl ?t ! 0) \<noteq> []"
    "1 < length (split_nl ?t)" "trim (split_nl ?t ! 1) \<noteq> []"
    "match (dropWhile is_space (split_nl ?t ! 1)) PREFIX_REGEX = None"
    by code_simp+
  have e0: "takeWhile is_space (split_nl ?t ! 0) @ spec_marker Checkbox (position (split_nl ?t) 0) @
      (case match (dropWhile is_space (split_nl ?t ! 0)) PREFIX_REGEX of
         Some m \<Rightarrow> tmpl (groups m 2)
       | None \<Rightarrow> dropWhile is_space (split_nl ?t ! 0)) = js ''  - [ ] one''"
    by code_simp
  have w0: "takeWhile is_space (split_nl ?t ! 0) = js ''  ''"
    by code_simp
  have e1: "takeWhile is_space (split_nl ?t ! 1) @ spec_marker Checkbox (position (split_nl ?t) 1) @
      dropWhile is_space (split_nl ?t ! 1) = js '' - [ ] two''"
    by code_simp
  from indentation_and_content [of ?t Checkbox] h(1,2)
  have 0: "split_nl (formattedText Checkbox ?t) ! 0 = js ''  - [ ] one''"
    "takeWhile is_space (split_nl (formattedText Checkbox ?t) ! 0) = js ''  ''"
    unfolding e0 [symmetric] w0 [symmetric] by blast+
  from indentation_and_content [of ?t Checkbox] h(3,4,5)
  have 1: "split_nl (formattedText Checkbox ?t) ! 1 = js '' - [ ] two''"
    unfolding e1 [symmetric] by blast
  from h 0 1 show ?thesis by blast
qed

subsection \<open>C5: the lines and their order\<close>

text \<open>
  Claim C5. For every text and every style function, the output has as many lines as the
  input, in the same order. Line \<open>i\<close> of the output is line \<open>i\<close> of the input when that
  line is blank. Otherwise the input line is its indentation, a segment \<open>old\<close> and a
  rest \<open>r\<close>, and the output line is the same indentation, the marker of the line's
  position and the same \<open>r\<close>, where either \<open>old\<close> is empty and \<open>PREFIX_REGEX\<close> does
  not match the content, or \<open>old\<close> is the body of a marker followed by white space and
  \<open>r\<close> is the second capture of the match. So nothing is added but the new marker and
  nothing is removed but a detected old marker with the white space after it.
\<close>

theorem format_preserves_lines:
  "length (split_nl (formattedText s text)) = length (split_nl text) \<and>
   (\<forall>i < length (split_nl text).
      (trim (split_nl text ! i) = [] \<longrightarrow>
         split_nl (formattedText s text) ! i = split_nl text ! i) \<and>
      (trim (split_nl text ! i) \<noteq> [] \<longrightarrow>
         (\<exists>old r.
            split_nl text ! i = takeWhile is_space (split_nl text ! i) @ old @ r \<and>
            split_nl (formattedText s text) ! i =
              takeWhile is_space (split_nl text ! i) @
              spec_marker s (position (split_nl text) i) @ r \<and>
            (old = [] \<and> match (dropWhile is_space (split_nl text ! i)) PREFIX_REGEX = None \<or>
             (\<exists>m w. old = m @ w \<and> marker_body m \<and> w \<noteq> [] \<and> list_all is_space w) \<and>
             (\<exists>mr. match (dropWhile is_space (split_nl text ! i)) PREFIX_REGEX = Some mr \<and>
                groups mr 2 = Some r)))))"
proof (intro conjI allI impI)
  show "length (split_nl (formattedText s text)) = length (split_nl text)"
    by (simp add: lines_formattedText)
next
  fix i
  assume "i < length (split_nl text)" "trim (split_nl text ! i) = []"
  then show "split_nl (formattedText s text) ! i = split_nl text ! i"
    by (simp add: line_facts)
next
  fix i
  let ?l = "split_nl text ! i"
  let ?W = "takeWhile is_space ?l"
  let ?C = "dropWhile is_space ?l"
  let ?mk = "spec_marker s (position (split_nl text) i)"
  let ?out = "split_nl (formattedText s text) ! i"
  let ?P = "\<lambda>old r. ?l = ?W @ old @ r \<and> ?out = ?W @ ?mk @ r \<and>
      (old = [] \<and> match ?C PREFIX_REGEX = None \<or>
       (\<exists>m w. old = m @ w \<and> marker_body m \<and> w \<noteq> [] \<and> list_all is_space w) \<and>
       (\<exists>mr. match ?C PREFIX_REGEX = Some mr \<and> groups mr 2 = Some r))"
  assume i: "i < length (split_nl text)" and nb: "trim ?l \<noteq> []"
  have out: "?out = ?W @ ?mk @ residual ?C"
    using i nb by (simp add: line_facts)
  have l: "?l = ?W @ ?C" by simp
  show "\<exists>old r. ?P old r"
  proof (cases "detect ?C")
    case None
    then have "match ?C PREFIX_REGEX = None" by (simp add: match_None_iff)
    moreover have "residual ?C = ?C" using None by (simp add: residual_def)
    ultimately have "?P [] ?C" using out l by simp
    then show ?thesis by blast
  next
    case (Some r)
    from detect_shape [OF dropWhile_idem Some] obtain m w where
      mw: "?C = m @ w @ r" "marker_body m" "w \<noteq> []" "list_all is_space w" by blast
    have "\<exists>mr. match ?C PREFIX_REGEX = Some mr \<and> groups mr 2 = Some r"
      using Some by (simp add: match_Some_iff)
    moreover have "residual ?C = r" using Some by (simp add: residual_def)
    moreover have "?l = ?W @ (m @ w) @ r" using l mw(1) by simp
    ultimately have "?P (m @ w) r" using out mw(2-4) by blast
    then show ?thesis by blast
  qed
qed

theorem format_preserves_lines_witness:
  "2 < length (split_nl (js ''  * one\<newline>\<newline>two'')) \<and>
   trim (split_nl (js ''  * one\<newline>\<newline>two'') ! 0) \<noteq> [] \<and>
   trim (split_nl (js ''  * one\<newline>\<newline>two'') ! 1) = [] \<and>
   trim (split_nl (js ''  * one\<newline>\<newline>two'') ! 2) \<noteq> [] \<and>
   length (split_nl (formattedText Roman (js ''  * one\<newline>\<newline>two''))) =
     length (split_nl (js ''  * one\<newline>\<newline>two'')) \<and>
   split_nl (formattedText Roman (js ''  * one\<newline>\<newline>two'')) ! 1 =
     split_nl (js ''  * one\<newline>\<newline>two'') ! 1 \<and>
   (\<exists>old r.
      split_nl (js ''  * one\<newline>\<newline>two'') ! 0 =
        takeWhile is_space (split_nl (js ''  * one\<newline>\<newline>two'') ! 0) @ old @ r \<and>
      split_nl (formattedText Roman (js ''  * one\<newline>\<newline>two'')) ! 0 =
        takeWhile is_space (split_nl (js ''  * one\<newline>\<newline>two'') ! 0) @
        spec_marker Roman (position (split_nl (js ''  * one\<newline>\<newline>two'')) 0) @ r \<and>
      (\<exists>m w. old = m @ w \<and> marker_body m \<and> w \<noteq> [] \<and> list_all is_space w) \<and>
      (\<exists>mr. match (dropWhile is_space (split_nl (js ''  * one\<newline>\<newline>two'') ! 0)) PREFIX_REGEX =
          Some mr \<and> groups mr 2 = Some r)) \<and>
   match (dropWhile is_space (split_nl (js ''  * one\<newline>\<newline>two'') ! 2)) PREFIX_REGEX = None \<and>
   split_nl (formattedText Roman (js ''  * one\<newline>\<newline>two'')) ! 0 = js ''  i. one'' \<and>
   split_nl (formattedText Roman (js ''  * one\<newline>\<newline>two'')) ! 2 = js ''ii. two''"
proof -
  let ?t = "js ''  * one\<newline>\<newline>two''"
  have h: "2 < length (split_nl ?t)" "1 < length (split_nl ?t)" "0 < length (split_nl ?t)"
    "trim (split_nl ?t ! 0) \<noteq> []" "trim (split_nl ?t ! 1) = []" "trim (split_nl ?t ! 2) \<noteq> []"
    by code_simp+
  have n0: "match (dropWhile is_space (split_nl ?t ! 0)) PREFIX_REGEX \<noteq> None"
    and n2: "match (dropWhile is_space (split_nl ?t ! 2)) PREFIX_REGEX = None"
    by code_simp+
  have v: "split_nl (formattedText Roman ?t) ! 0 = js ''  i. one''"
    "split_nl (formattedText Roman ?t) ! 2 = js ''ii. two''"
    by code_simp+
  note T = format_preserves_lines [of Roman ?t]
  from T have len: "length (split_nl (formattedText Roman ?t)) = length (split_nl ?t)" by blast
  from T h have b1: "split_nl (formattedText Roman ?t) ! 1 = split_nl ?t ! 1" by blast
  from T h(3,4) obtain old r where
    o: "split_nl ?t ! 0 = takeWhile is_space (split_nl ?t ! 0) @ old @ r"
      "split_nl (formattedText Roman ?t) ! 0 =
        takeWhile is_space (split_nl ?t ! 0) @ spec_marker Roman (position (split_nl ?t) 0) @ r"
      "old = [] \<and> match (dropWhile is_space (split_nl ?t ! 0)) PREFIX_REGEX = None \<or>
       (\<exists>m w. old = m @ w \<and> marker_body m \<and> w \<noteq> [] \<and> list_all is_space w) \<and>
       (\<exists>mr. match (dropWhile is_space (split_nl ?t ! 0)) PREFIX_REGEX = Some mr \<and>
          groups mr 2 = Some r)"
    by blast
  from o(3) n0 have
    "(\<exists>m w. old = m @ w \<and> marker_body m \<and> w \<noteq> [] \<and> list_all is_space w) \<and>
     (\<exists>mr. match (dropWhile is_space (split_nl ?t ! 0)) PREFIX_REGEX = Some mr \<and>
        groups mr 2 = Some r)"
    by blast
  with o(1,2) h len b1 n2 v show ?thesis by blast
qed

subsection \<open>C6: bullets applied twice\<close>

text \<open>
  Claim C6. \<open>formatBulletList\<close> applied twice gives the same as applied once.

  The code does not do this on a text with a line that holds a carriage return, U+2028
  or U+2029 (the defect of C1): on \<open>"one\r\ntwo"\<close> the first application gives
  \<open>"- one\r\n- two"\<close> and the second gives \<open>"- - one\r\n- two"\<close>.
\<close>

theorem bullet_twice_with_line_terminator:
  "formatBulletList (js ''one'' @ CR # js ''\<newline>two'') = js ''- one'' @ CR # js ''\<newline>- two'' \<and>
   formatBulletList (js ''- one'' @ CR # js ''\<newline>- two'') = js ''- - one'' @ CR # js ''\<newline>- two'' \<and>
   formatBulletList (js ''one'' @ 0x2028 # js ''two'') = js ''- one'' @ 0x2028 # js ''two'' \<and>
   formatBulletList (js ''- one'' @ 0x2028 # js ''two'') = js ''- - one'' @ 0x2028 # js ''two''"
  by code_simp

text \<open>
  On a text whose only line terminators are the separators of \<open>split\<close>, the second
  application changes nothing.
\<close>

lemma bullet_idempotent_without_terminator:
  assumes "\<forall>c \<in> set text. is_line_terminator c \<longrightarrow> c = NL"
  shows "formatBulletList (formatBulletList text) = formatBulletList text"
proof -
  let ?f = "\<lambda>l. if trim l = [] then l else processLine l (js ''- '')"
  have nl: "NL \<notin> set (js ''- '')" by (simp add: js_def NL_def)
  have "\<forall>l \<in> set (map ?f (split_nl text)). NL \<notin> set l"
    using split_nl_no_NL [of _ "text"] processLine_no_NL [OF _ nl] by auto
  then have s: "split_nl (join_nl (map ?f (split_nl text))) = map ?f (split_nl text)"
    by (intro split_join_nl) (simp_all add: split_nl_not_Nil)
  have fixed: "?f (?f l) = ?f l" if "l \<in> set (split_nl text)" for l
    using bullet_line_fixed [OF lines_without_terminator [OF assms that]] by auto
  have "map ?f (map ?f (split_nl text)) = map (\<lambda>l. ?f (?f l)) (split_nl text)"
    by (simp add: comp_def)
  also have "\<dots> = map ?f (split_nl text)"
    by (rule map_cong [OF refl]) (rule fixed)
  finally have "map ?f (map ?f (split_nl text)) = map ?f (split_nl text)" .
  then show ?thesis
    by (simp only: formatBulletList_lines s)
qed

subsection \<open>C7: roman numerals\<close>

text \<open>
  Claim C7. The two tables of the source are the numerals I to XX, in upper and in lower
  case, 20 entries each. \<open>formatRomanList\<close> processes the non-blank line at position
  \<open>k\<close> with the entry at index \<open>k mod 20\<close>, a period and a space; at position 20 (the
  21st non-blank line) this is the marker of the first line again, \<open>"i. "\<close> in lower
  case.
\<close>

theorem roman_cycle:
  "ROMAN_NUMERALS_UPPER = spec_roman_upper \<and> ROMAN_NUMERALS_LOWER = spec_roman_lower \<and>
   length spec_roman_upper = 20 \<and> length spec_roman_lower = 20 \<and>
   (\<forall>i < length (split_nl text).
      trim (split_nl text ! i) \<noteq> [] \<longrightarrow>
        split_nl (formatRomanList text lower) ! i =
          processLine (split_nl text ! i)
            ((if lower then spec_roman_lower else spec_roman_upper) !
               (position (split_nl text) i mod 20) @ js ''. '') \<and>
        (\<exists>r. split_nl (formatRomanList text lower) ! i =
          takeWhile is_space (split_nl text ! i) @
          ((if lower then spec_roman_lower else spec_roman_upper) !
             (position (split_nl text) i mod 20) @ js ''. '') @ r) \<and>
        (position (split_nl text) i = 0 \<or> position (split_nl text) i = 20 \<longrightarrow>
           split_nl (formatRomanList text lower) ! i =
             processLine (split_nl text ! i) (if lower then js ''i. '' else js ''I. '')))"
proof (intro conjI allI impI)
  fix i
  assume a: "i < length (split_nl text)" "trim (split_nl text ! i) \<noteq> []"
  show 1: "split_nl (formatRomanList text lower) ! i =
      processLine (split_nl text ! i)
        ((if lower then spec_roman_lower else spec_roman_upper) !
           (position (split_nl text) i mod 20) @ js ''. '')"
    using style_line [OF a, of Roman] style_line [OF a, of RomanUpper]
    by (cases lower) simp_all
  show "\<exists>r. split_nl (formatRomanList text lower) ! i =
      takeWhile is_space (split_nl text ! i) @
      ((if lower then spec_roman_lower else spec_roman_upper) !
         (position (split_nl text) i mod 20) @ js ''. '') @ r"
    unfolding 1 using a(2) by (rule processLine_shape)
  assume "position (split_nl text) i = 0 \<or> position (split_nl text) i = 20"
  then have p: "position (split_nl text) i mod 20 = 0" by auto
  have "spec_roman_lower ! 0 @ js ''. '' = js ''i. ''" "spec_roman_upper ! 0 @ js ''. '' = js ''I. ''"
    by code_simp+
  then show "split_nl (formatRomanList text lower) ! i =
      processLine (split_nl text ! i) (if lower then js ''i. '' else js ''I. '')"
    unfolding 1 p by simp
qed (simp_all add: ROMAN_NUMERALS_UPPER_eq ROMAN_NUMERALS_LOWER_eq)

theorem roman_cycle_witness:
  "20 < length (split_nl (join_nl (replicate 21 (js ''x'')))) \<and>
   trim (split_nl (join_nl (replicate 21 (js ''x''))) ! 20) \<noteq> [] \<and>
   position (split_nl (join_nl (replicate 21 (js ''x'')))) 20 = 20 \<and>
   split_nl (formatRomanList (join_nl (replicate 21 (js ''x''))) True) ! 20 =
     processLine (split_nl (join_nl (replicate 21 (js ''x''))) ! 20) (js ''i. '') \<and>
   0 < length (split_nl (join_nl (replicate 21 (js ''x'')))) \<and>
   trim (split_nl (join_nl (replicate 21 (js ''x''))) ! 0) \<noteq> [] \<and>
   position (split_nl (join_nl (replicate 21 (js ''x'')))) 0 = 0 \<and>
   split_nl (formatRomanList (join_nl (replicate 21 (js ''x''))) True) ! 0 =
     processLine (split_nl (join_nl (replicate 21 (js ''x''))) ! 0) (js ''i. '')"
proof -
  let ?t = "join_nl (replicate 21 (js ''x''))"
  have h: "20 < length (split_nl ?t)" "trim (split_nl ?t ! 20) \<noteq> []"
    "position (split_nl ?t) 20 = 20"
    "0 < length (split_nl ?t)" "trim (split_nl ?t ! 0) \<noteq> []"
    "position (split_nl ?t) 0 = 0"
    by code_simp+
  note r = roman_cycle [of ?t True, unfolded if_True]
  from r h(1,2,3)
  have 1: "split_nl (formatRomanList ?t True) ! 20 = processLine (split_nl ?t ! 20) (js ''i. '')"
    by blast
  from r h(4,5,6)
  have 2: "split_nl (formatRomanList ?t True) ! 0 = processLine (split_nl ?t ! 0) (js ''i. '')"
    by blast
  from h 1 2 show ?thesis by blast
qed

subsection \<open>C8: letters\<close>

text \<open>
  Claim C8. \<open>formatAlphabeticalList\<close> processes the non-blank line at position \<open>k\<close>
  with the letter at index \<open>k mod 26\<close> of the alphabet (lower or upper case), a period
  and a space; at position 26 (the 27th non-blank line) this is the marker of the first
  line again, \<open>"a. "\<close> in lower case.
\<close>

theorem alphabetical_cycle:
  "\<forall>i < length (split_nl text).
      trim (split_nl text ! i) \<noteq> [] \<longrightarrow>
        split_nl (formatAlphabeticalList text lower) ! i =
          processLine (split_nl text ! i)
            ((if lower then js ''abcdefghijklmnopqrstuvwxyz'' else js ''ABCDEFGHIJKLMNOPQRSTUVWXYZ'') !
               (position (split_nl text) i mod 26) # js ''. '') \<and>
        (\<exists>r. split_nl (formatAlphabeticalList text lower) ! i =
          takeWhile is_space (split_nl text ! i) @
          ((if lower then js ''abcdefghijklmnopqrstuvwxyz'' else js ''ABCDEFGHIJKLMNOPQRSTUVWXYZ'') !
             (position (split_nl text) i mod 26) # js ''. '') @ r) \<and>
        (position (split_nl text) i = 0 \<or> position (split_nl text) i = 26 \<longrightarrow>
           split_nl (formatAlphabeticalList text lower) ! i =
             processLine (split_nl text ! i) (if lower then js ''a. '' else js ''A. ''))"
proof (intro conjI allI impI)
  fix i
  assume a: "i < length (split_nl text)" "trim (split_nl text ! i) \<noteq> []"
  show 1: "split_nl (formatAlphabeticalList text lower) ! i =
      processLine (split_nl text ! i)
        ((if lower then js ''abcdefghijklmnopqrstuvwxyz'' else js ''ABCDEFGHIJKLMNOPQRSTUVWXYZ'') !
           (position (split_nl text) i mod 26) # js ''. '')"
    using style_line [OF a, of Alphabetical] style_line [OF a, of AlphabeticalUpper]
    by (cases lower) simp_all
  show "\<exists>r. split_nl (formatAlphabeticalList text lower) ! i =
      takeWhile is_space (split_nl text ! i) @
      ((if lower then js ''abcdefghijklmnopqrstuvwxyz'' else js ''ABCDEFGHIJKLMNOPQRSTUVWXYZ'') !
         (position (split_nl text) i mod 26) # js ''. '') @ r"
    unfolding 1 using a(2) by (rule processLine_shape)
  assume "position (split_nl text) i = 0 \<or> position (split_nl text) i = 26"
  then have p: "position (split_nl text) i mod 26 = 0" by auto
  have "js ''abcdefghijklmnopqrstuvwxyz'' ! 0 # js ''. '' = js ''a. ''"
    "js ''ABCDEFGHIJKLMNOPQRSTUVWXYZ'' ! 0 # js ''. '' = js ''A. ''"
    by code_simp+
  then show "split_nl (formatAlphabeticalList text lower) ! i =
      processLine (split_nl text ! i) (if lower then js ''a. '' else js ''A. '')"
    unfolding 1 p by simp
qed

theorem alphabetical_cycle_witness:
  "26 < length (split_nl (join_nl (replicate 27 (js ''x'')))) \<and>
   trim (split_nl (join_nl (replicate 27 (js ''x''))) ! 26) \<noteq> [] \<and>
   position (split_nl (join_nl (replicate 27 (js ''x'')))) 26 = 26 \<and>
   split_nl (formatAlphabeticalList (join_nl (replicate 27 (js ''x''))) True) ! 26 =
     processLine (split_nl (join_nl (replicate 27 (js ''x''))) ! 26) (js ''a. '') \<and>
   25 < length (split_nl (join_nl (replicate 27 (js ''x'')))) \<and>
   trim (split_nl (join_nl (replicate 27 (js ''x''))) ! 25) \<noteq> [] \<and>
   split_nl (formatAlphabeticalList (join_nl (replicate 27 (js ''x''))) True) ! 25 =
     processLine (split_nl (join_nl (replicate 27 (js ''x''))) ! 25) (js ''z. '')"
proof -
  let ?t = "join_nl (replicate 27 (js ''x''))"
  have h: "26 < length (split_nl ?t)" "trim (split_nl ?t ! 26) \<noteq> []"
    "position (split_nl ?t) 26 = 26"
    "25 < length (split_nl ?t)" "trim (split_nl ?t ! 25) \<noteq> []"
    by code_simp+
  have e: "js ''abcdefghijklmnopqrstuvwxyz'' ! (position (split_nl ?t) 25 mod 26) # js ''. '' = js ''z. ''"
    by code_simp
  note r = alphabetical_cycle [of ?t True, unfolded if_True]
  from r h(1,2,3)
  have 1: "split_nl (formatAlphabeticalList ?t True) ! 26 = processLine (split_nl ?t ! 26) (js ''a. '')"
    by blast
  from r h(4,5)
  have 2: "split_nl (formatAlphabeticalList ?t True) ! 25 = processLine (split_nl ?t ! 25) (js ''z. '')"
    unfolding e [symmetric] by blast
  from h 1 2 show ?thesis by blast
qed

subsection \<open>C9: no failure\<close>

text \<open>
  Claim C9 says that the style functions succeed on every string. Here a style function
  is a total function from strings to strings, as the source has no statement that
  throws; the one way a call can fail, the limit of the engine on the length of a
  string, is not part of this theory. What remains are the facts below: on the empty
  string every style function returns the empty string, and the reads of the source
  that can come back without a value always have one.
\<close>

lemma empty_text_unchanged: "formattedText s [] = []"
  by (cases s)
     (simp_all add: formatBulletList_def formatNumberedList_def formatAlphabeticalList_def
        formatRomanList_def formatCheckboxList_def trim_def)

lemma reads_have_values:
  "match line LEADING_WS_REGEX \<noteq> None"
  "match content PREFIX_REGEX = Some m \<Longrightarrow> groups m 2 \<noteq> None"
  "at_index ROMAN_NUMERALS_LOWER (counter mod length ROMAN_NUMERALS_LOWER) \<noteq> None"
  "at_index ROMAN_NUMERALS_UPPER (counter mod length ROMAN_NUMERALS_UPPER) \<noteq> None"
  by (simp_all add: match_LEADING_WS_REGEX_Some group2_present at_index_def
        ROMAN_NUMERALS_LOWER_eq ROMAN_NUMERALS_UPPER_eq)

subsection \<open>C10: bullets after checkboxes\<close>

text \<open>
  Claim C10. The checkbox marker is not among the forms that \<open>PREFIX_REGEX\<close>
  recognises; only its leading \<open>"- "\<close> is, so \<open>formatBulletList\<close> leaves every text
  that \<open>formatCheckboxList\<close> has produced unchanged, and \<open>formatCheckboxList\<close> is not
  idempotent.

  The code does not leave such a text unchanged when a line holds a carriage return,
  U+2028 or U+2029 (the defect of C1): \<open>formatCheckboxList\<close> turns \<open>"one\r\ntwo"\<close>
  into \<open>"- [ ] one\r\n- [ ] two"\<close>, which \<open>formatBulletList\<close> turns into
  \<open>"- - [ ] one\r\n- [ ] two"\<close>.
\<close>

theorem bullet_after_checkbox_with_line_terminator:
  "formatCheckboxList (js ''one'' @ CR # js ''\<newline>two'') =
     js ''- [ ] one'' @ CR # js ''\<newline>- [ ] two'' \<and>
   formatBulletList (js ''- [ ] one'' @ CR # js ''\<newline>- [ ] two'') =
     js ''- - [ ] one'' @ CR # js ''\<newline>- [ ] two'' \<and>
   formatCheckboxList (js ''one'' @ 0x2028 # js ''two'') = js ''- [ ] one'' @ 0x2028 # js ''two'' \<and>
   formatBulletList (js ''- [ ] one'' @ 0x2028 # js ''two'') = js ''- - [ ] one'' @ 0x2028 # js ''two''"
  by code_simp

text \<open>
  On a text whose only line terminators are the separators of \<open>split\<close>,
  \<open>formatBulletList\<close> changes nothing after \<open>formatCheckboxList\<close>; and
  \<open>formatCheckboxList\<close> applied twice gives two boxes.
\<close>

lemma bullet_after_checkbox_without_terminator:
  assumes "\<forall>c \<in> set text. is_line_terminator c \<longrightarrow> c = NL"
  shows "formatBulletList (formatCheckboxList text) = formatCheckboxList text"
proof -
  let ?f = "\<lambda>l. if trim l = [] then l else processLine l (js ''- '')"
  let ?g = "\<lambda>l. if trim l = [] then l else processLine l (js ''- [ ] '')"
  have nl: "NL \<notin> set (js ''- [ ] '')" by (simp add: js_def NL_def)
  have "\<forall>l \<in> set (map ?g (split_nl text)). NL \<notin> set l"
    using split_nl_no_NL [of _ "text"] processLine_no_NL [OF _ nl] by auto
  then have s: "split_nl (join_nl (map ?g (split_nl text))) = map ?g (split_nl text)"
    by (intro split_join_nl) (simp_all add: split_nl_not_Nil)
  have fixed: "?f (?g l) = ?g l" if "l \<in> set (split_nl text)" for l
    using checkbox_line_fixed [OF lines_without_terminator [OF assms that]] by auto
  have "map ?f (map ?g (split_nl text)) = map (\<lambda>l. ?f (?g l)) (split_nl text)"
    by (simp add: comp_def)
  also have "\<dots> = map ?g (split_nl text)"
    by (rule map_cong [OF refl]) (rule fixed)
  finally have "map ?f (map ?g (split_nl text)) = map ?g (split_nl text)" .
  then show ?thesis
    by (simp only: formatBulletList_lines formatCheckboxList_lines s)
qed

lemma checkbox_not_idempotent:
  "formatCheckboxList (js ''x'') = js ''- [ ] x''"
  "formatCheckboxList (js ''- [ ] x'') = js ''- [ ] [ ] x''"
  by code_simp+

end
